theory Spec2Isabelle
  imports Main "HOL-Library.Word"
begin

section \<open>The megawatcher of state/megawatcher.go\<close>

text \<open>
  The embedding follows the Go source function by function.

  \<^item> Go's \<open>int64\<close> revision numbers are 64-bit words: \<open>+\<close> wraps, and the source's
    \<open>\<le>\<close> and \<open>>\<close> are the signed comparisons \<open>\<le>s\<close> and \<open><s\<close>. The reference count
    is a Go \<open>int\<close>, taken at its 64-bit width.
  \<^item> A \<open>*list.Element\<close> is an address (\<open>elem\<close>). Each element carries exactly one
    \<open>*entityEntry\<close> for its whole life, so the two pointers are one address and \<open>heap\<close>
    maps it to the entry's fields. \<open>nextElem\<close> is the allocator: the address the next
    \<open>PushFront\<close> returns.
  \<^item> The doubly linked \<open>list.List\<close> is the list of its elements' addresses, front first.
  \<^item> \<open>panic\<close> is the \<open>Inl\<close> branch of a sum; a method that cannot panic returns the
    state itself.
  \<^item> A send on a reply channel is an entry in the log \<open>sent\<close>. The receiver is the
    \<open>Next\<close> call that made the channel and waits on it, so the send goes through.
  \<^item> Names are the source's, except where HOL has the name already or two records
    would share a field: the field \<open>list\<close> of \<open>allInfo\<close> is \<open>elist\<close>, the fields
    \<open>revno\<close> and \<open>w\<close> of \<open>xStateWatcher\<close> and \<open>allRequest\<close> are \<open>wrevno\<close> and \<open>req_w\<close>,
    the field \<open>id\<close> of \<open>entityId\<close> is \<open>key\<close>, and a parameter \<open>id\<close> is \<open>eid\<close>.
\<close>

type_synonym int64 = "64 word"
type_synonym elem = nat

datatype panic = Panic string

record 'info entityEntry =
  revno :: int64
  creationRevno :: int64
  removed :: bool
  refCount :: int64
  info :: 'info

record 'info Delta =
  Removed :: bool
  Entity :: 'info

record ('id, 'info) allInfo =
  latestRevno :: int64
  entities :: "'id \<rightharpoonup> elem"
  elist :: "elem list"
  heap :: "elem \<Rightarrow> 'info entityEntry"
  nextElem :: elem

subsection \<open>container/list\<close>

text \<open>
  \<open>PushFront\<close> allocates a new element holding the entry and links it at the front.
  \<open>Remove\<close> and \<open>MoveToFront\<close> do nothing for an element that is not in the list
  (\<open>e.list != l\<close>).
\<close>

definition PushFront ::
  "('id, 'info) allInfo \<Rightarrow> 'info entityEntry \<Rightarrow> elem \<times> ('id, 'info) allInfo" where
  "PushFront a entry =
     (nextElem a,
      a\<lparr>elist := nextElem a # elist a,
        heap := (heap a)(nextElem a := entry),
        nextElem := Suc (nextElem a)\<rparr>)"

definition Remove :: "elem \<Rightarrow> elem list \<Rightarrow> elem list" where
  "Remove e l = removeAll e l"

definition MoveToFront :: "elem \<Rightarrow> elem list \<Rightarrow> elem list" where
  "MoveToFront e l = (if e \<in> set l then e # removeAll e l else l)"

subsection \<open>allInfo\<close>

text \<open>
  The empty \<open>allInfo\<close>. Nothing is allocated yet; \<open>blank\<close> is what the heap holds at
  addresses that no element occupies.
\<close>

definition newAllInfo :: "'info entityEntry \<Rightarrow> ('id, 'info) allInfo" where
  "newAllInfo blank =
     \<lparr>latestRevno = 0, entities = Map.empty, elist = [], heap = (\<lambda>_. blank), nextElem = 0\<rparr>"

definition add ::
  "('id, 'info) allInfo \<Rightarrow> 'id \<Rightarrow> 'info \<Rightarrow> panic + ('id, 'info) allInfo" where
  "add a eid newInfo =
     (if entities a eid \<noteq> None then Inl (Panic ''adding new entry with duplicate id'')
      else
        let a1 = a\<lparr>latestRevno := latestRevno a + 1\<rparr>;
            entry = \<lparr>revno = latestRevno a1, creationRevno = latestRevno a1,
                     removed = False, refCount = 0, info = newInfo\<rparr>;
            (e, a2) = PushFront a1 entry
        in Inr (a2\<lparr>entities := (entities a2)(eid \<mapsto> e)\<rparr>))"

definition decRef ::
  "('id, 'info) allInfo \<Rightarrow> elem \<Rightarrow> 'id \<Rightarrow> panic + ('id, 'info) allInfo" where
  "decRef a entry eid =
     (let rc = refCount (heap a entry) - 1;
          a1 = a\<lparr>heap := (heap a)(entry := (heap a entry)\<lparr>refCount := rc\<rparr>)\<rparr>
      in if 0 <s rc then Inr a1
         else if rc <s 0 then Inl (Panic ''negative reference count'')
         else if \<not> removed (heap a1 entry) then Inr a1
         else (case entities a1 eid of
                 None \<Rightarrow> Inl (Panic ''delete of non-existent entry'')
               | Some el \<Rightarrow>
                   Inr (a1\<lparr>entities := (entities a1)(eid := None),
                           elist := Remove el (elist a1)\<rparr>)))"

definition delete :: "('id, 'info) allInfo \<Rightarrow> 'id \<Rightarrow> ('id, 'info) allInfo" where
  "delete a eid =
     (case entities a eid of
        None \<Rightarrow> a
      | Some el \<Rightarrow> a\<lparr>entities := (entities a)(eid := None), elist := Remove el (elist a)\<rparr>)"

definition markRemoved :: "('id, 'info) allInfo \<Rightarrow> 'id \<Rightarrow> ('id, 'info) allInfo" where
  "markRemoved a eid =
     (case entities a eid of
        None \<Rightarrow> a
      | Some el \<Rightarrow>
          if removed (heap a el) then a
          else
            let a1 = a\<lparr>latestRevno := latestRevno a + 1\<rparr>
            in if refCount (heap a1 el) = 0 then delete a1 eid
               else a1\<lparr>heap := (heap a1)(el := (heap a1 el)\<lparr>revno := latestRevno a1,
                                                             removed := True\<rparr>),
                       elist := MoveToFront el (elist a1)\<rparr>)"

definition update ::
  "('id, 'info) allInfo \<Rightarrow> 'id \<Rightarrow> 'info \<Rightarrow> panic + ('id, 'info) allInfo" where
  "update a eid newInfo =
     (case entities a eid of
        None \<Rightarrow> add a eid newInfo
      | Some el \<Rightarrow>
          if newInfo = info (heap a el) then Inr a
          else
            let a1 = a\<lparr>latestRevno := latestRevno a + 1\<rparr>
            in Inr (a1\<lparr>heap := (heap a1)(el := (heap a1 el)\<lparr>revno := latestRevno a1,
                                                                info := newInfo\<rparr>),
                        elist := MoveToFront el (elist a1)\<rparr>))"

text \<open>
  \<open>changesSince\<close> walks forward from the front while \<open>entry.revno > revno\<close>, then walks
  back with \<open>Prev\<close> from the last element it passed (or from \<open>Back\<close> when it passed them
  all) to the front. The cursor is a zipper: \<open>before\<close> holds the elements already
  passed, nearest first, so the backward walk is a walk down \<open>before\<close>. The count \<open>n\<close>
  only sizes the slice's capacity and is left out.
\<close>

fun changesSince_scan ::
  "(elem \<Rightarrow> 'info entityEntry) \<Rightarrow> int64 \<Rightarrow> elem list \<Rightarrow> elem list \<Rightarrow> elem list" where
  "changesSince_scan h r before [] = before"
| "changesSince_scan h r before (e # after) =
     (if revno (h e) \<le>s r then before else changesSince_scan h r (e # before) after)"

fun changesSince_collect ::
  "(elem \<Rightarrow> 'info entityEntry) \<Rightarrow> int64 \<Rightarrow> elem list \<Rightarrow> 'info Delta list \<Rightarrow> 'info Delta list" where
  "changesSince_collect h r [] changes = changes"
| "changesSince_collect h r (e # before) changes =
     (if removed (h e) \<and> r <s creationRevno (h e)
      then changesSince_collect h r before changes
      else changesSince_collect h r before
             (changes @ [\<lparr>Removed = removed (h e), Entity = info (h e)\<rparr>]))"

definition changesSince :: "('id, 'info) allInfo \<Rightarrow> int64 \<Rightarrow> 'info Delta list" where
  "changesSince a r =
     changesSince_collect (heap a) r (changesSince_scan (heap a) r [] (elist a)) []"

subsection \<open>allWatcher\<close>

text \<open>
  \<open>entityId\<close> is the source's struct; its \<open>id\<close> field is an opaque \<open>interface{}\<close>,
  here a string. The methods below are generic in the id type.
\<close>

record entityId =
  collection :: string
  key :: string

text \<open>Go \<open>error\<close> values: \<open>mgo.ErrNotFound\<close>, \<open>tomb.ErrDying\<close>, and any other error.\<close>

datatype err = ErrNotFound | ErrDying | Err string

type_synonym wptr = nat
type_synonym chan = nat

record xStateWatcher =
  wrevno :: int64
  stopped :: bool

text \<open>
  The \<open>next\<close> field of \<open>allRequest\<close> links the requests of one watcher; the chain that
  starts at \<open>waiting[w]\<close> is a list, head first. A \<open>nil\<close> reply channel is \<open>None\<close>.
\<close>

record 'info allRequest =
  req_w :: wptr
  reply :: "chan option"
  changes :: "'info Delta list"

record ('id, 'info) allWatcherBacking =
  entityIdForInfo :: "'info \<Rightarrow> 'id"
  fetch :: "'id \<Rightarrow> 'info \<times> err option"

text \<open>
  \<open>watchers\<close> holds the fields of the \<open>xStateWatcher\<close> objects that the keys of
  \<open>waiting\<close> and the requests point to. \<open>sent\<close> records every send on a reply channel,
  in order, with the request as it is at that moment.
\<close>

record ('id, 'info) allWatcher =
  backing :: "('id, 'info) allWatcherBacking"
  all :: "('id, 'info) allInfo"
  waiting :: "wptr \<rightharpoonup> 'info allRequest list"
  watchers :: "wptr \<Rightarrow> xStateWatcher"
  sent :: "('info allRequest \<times> bool) list"

definition send ::
  "('id, 'info) allWatcher \<Rightarrow> 'info allRequest \<Rightarrow> bool \<Rightarrow> ('id, 'info) allWatcher" where
  "send aw req ok = aw\<lparr>sent := sent aw @ [(req, ok)]\<rparr>"

definition pending :: "('id, 'info) allWatcher \<Rightarrow> wptr \<Rightarrow> 'info allRequest list" where
  "pending aw w = (case waiting aw w of None \<Rightarrow> [] | Some q \<Rightarrow> q)"

text \<open>
  \<open>seen\<close> and \<open>leave\<close> walk the list with a cursor and save \<open>next := e.Next()\<close> before
  the body, which may unlink an element through \<open>decRef\<close>. The second argument of the
  loops is the cursor followed by its \<open>Next\<close> chain. After a \<open>decRef\<close> the chain is read
  again in the list as it now is: an element that was unlinked has no \<open>Next\<close>, so the
  walk visits it and stops; otherwise the unlinked element drops out of the chain.
\<close>

definition following :: "elem list \<Rightarrow> elem list \<Rightarrow> elem list" where
  "following l after =
     (case after of
        [] \<Rightarrow> []
      | n # t \<Rightarrow> if n \<in> set l then n # filter (\<lambda>x. x \<in> set l) t else [n])"

text \<open>
  For comparison with \<open>following\<close>: the cursor \<open>e\<close> followed by its \<open>Next\<close> chain, read
  off the list directly. An element that is not linked has no \<open>Next\<close>.
\<close>

definition chain :: "elem list \<Rightarrow> elem \<Rightarrow> elem list" where
  "chain l e = (if e \<in> set l then dropWhile (\<lambda>x. x \<noteq> e) l else [e])"

function seen_loop ::
  "('info \<Rightarrow> 'id) \<Rightarrow> ('id, 'info) allInfo \<Rightarrow> int64 \<Rightarrow> elem list
     \<Rightarrow> panic + ('id, 'info) allInfo" where
  "seen_loop f a r [] = Inr a"
| "seen_loop f a r (e # after) =
     (if revno (heap a e) \<le>s r then Inr a
      else if r <s creationRevno (heap a e) then
        (if \<not> removed (heap a e)
         then seen_loop f
                (a\<lparr>heap := (heap a)(e := (heap a e)\<lparr>refCount := refCount (heap a e) + 1\<rparr>)\<rparr>)
                r after
         else seen_loop f a r after)
      else if removed (heap a e) then
        (case decRef a e (f (info (heap a e))) of
           Inl p \<Rightarrow> Inl p
         | Inr a' \<Rightarrow> seen_loop f a' r (following (elist a') after))
      else seen_loop f a r after)"
  by pat_completeness auto
termination
  by (relation "measure (\<lambda>(f, a, r, l). length l)") (auto simp: following_def less_Suc_eq_le le_SucI split: list.splits)

definition seen ::
  "('id, 'info) allWatcher \<Rightarrow> int64 \<Rightarrow> panic + ('id, 'info) allWatcher" where
  "seen aw r =
     (case seen_loop (entityIdForInfo (backing aw)) (all aw) r (elist (all aw)) of
        Inl p \<Rightarrow> Inl p
      | Inr a' \<Rightarrow> Inr (aw\<lparr>all := a'\<rparr>))"

function leave_loop ::
  "('info \<Rightarrow> 'id) \<Rightarrow> ('id, 'info) allInfo \<Rightarrow> int64 \<Rightarrow> elem list
     \<Rightarrow> panic + ('id, 'info) allInfo" where
  "leave_loop f a wr [] = Inr a"
| "leave_loop f a wr (e # after) =
     (if creationRevno (heap a e) \<le>s wr then
        (if removed (heap a e) \<and> revno (heap a e) \<le>s wr then leave_loop f a wr after
         else (case decRef a e (f (info (heap a e))) of
                 Inl p \<Rightarrow> Inl p
               | Inr a' \<Rightarrow> leave_loop f a' wr (following (elist a') after)))
      else leave_loop f a wr after)"
  by pat_completeness auto
termination
  by (relation "measure (\<lambda>(f, a, wr, l). length l)") (auto simp: following_def less_Suc_eq_le le_SucI split: list.splits)

definition leave ::
  "('id, 'info) allWatcher \<Rightarrow> wptr \<Rightarrow> panic + ('id, 'info) allWatcher" where
  "leave aw w =
     (case leave_loop (entityIdForInfo (backing aw)) (all aw) (wrevno (watchers aw w))
             (elist (all aw)) of
        Inl p \<Rightarrow> Inl p
      | Inr a' \<Rightarrow> Inr (aw\<lparr>all := a'\<rparr>))"

definition handle ::
  "('id, 'info) allWatcher \<Rightarrow> 'info allRequest \<Rightarrow> panic + ('id, 'info) allWatcher" where
  "handle aw req =
     (if stopped (watchers aw (req_w req)) then
        (if reply req \<noteq> None then Inr (send aw req False) else Inr aw)
      else if reply req = None then
        (let aw1 = fold (\<lambda>rq s. send s rq False) (pending aw (req_w req)) aw;
             aw2 = aw1\<lparr>waiting := (waiting aw1)(req_w req := None)\<rparr>;
             aw3 = aw2\<lparr>watchers := (watchers aw2)
                         (req_w req := (watchers aw2 (req_w req))\<lparr>stopped := True\<rparr>)\<rparr>
         in leave aw3 (req_w req))
      else Inr (aw\<lparr>waiting := (waiting aw)(req_w req \<mapsto> req # pending aw (req_w req))\<rparr>))"

text \<open>
  One iteration of the \<open>range\<close> loop of \<open>respond\<close>, for the key \<open>w\<close> and the head \<open>req\<close>
  of its chain. A key whose value is \<open>nil\<close> (the empty chain) is dereferenced at
  \<open>req.changes = changes\<close>.
\<close>

definition respond_step ::
  "('id, 'info) allWatcher \<Rightarrow> wptr \<Rightarrow> panic + ('id, 'info) allWatcher" where
  "respond_step aw w =
     (case waiting aw w of
        None \<Rightarrow> Inr aw
      | Some q \<Rightarrow>
          let r = wrevno (watchers aw w);
              cs = changesSince (all aw) r
          in if cs = [] then Inr aw
             else (case q of
                     [] \<Rightarrow> Inl (Panic ''invalid memory address or nil pointer dereference'')
                   | req # rest \<Rightarrow>
                       let aw1 = aw\<lparr>watchers := (watchers aw)
                                    (w := (watchers aw w)\<lparr>wrevno := latestRevno (all aw)\<rparr>)\<rparr>;
                           aw2 = send aw1 (req\<lparr>changes := cs\<rparr>) True;
                           aw3 = (if rest = []
                                  then aw2\<lparr>waiting := (waiting aw2)(w := None)\<rparr>
                                  else aw2\<lparr>waiting := (waiting aw2)(w \<mapsto> rest)\<rparr>)
                       in seen aw3 r))"

text \<open>
  Go leaves the order of \<open>range\<close> over a map open; \<open>respond\<close> takes it as the list
  \<open>order\<close> of the keys, each visited once.
\<close>

fun respond ::
  "('id, 'info) allWatcher \<Rightarrow> wptr list \<Rightarrow> panic + ('id, 'info) allWatcher" where
  "respond aw [] = Inr aw"
| "respond aw (w # order) =
     (case respond_step aw w of Inl p \<Rightarrow> Inl p | Inr aw' \<Rightarrow> respond aw' order)"

text \<open>\<open>changed\<close> returns the state and the Go error (\<open>None\<close> is \<open>nil\<close>).\<close>

definition changed ::
  "('id, 'info) allWatcher \<Rightarrow> 'id \<Rightarrow> panic + (('id, 'info) allWatcher \<times> err option)" where
  "changed aw eid =
     (let (newInfo, e) = fetch (backing aw) eid
      in if e = Some ErrNotFound then Inr (aw\<lparr>all := markRemoved (all aw) eid\<rparr>, None)
         else if e \<noteq> None then Inr (aw, e)
         else (case update (all aw) eid newInfo of
                 Inl p \<Rightarrow> Inl p
               | Inr a' \<Rightarrow> Inr (aw\<lparr>all := a'\<rparr>, None)))"

text \<open>
  One turn of the \<open>select\<close> in \<open>loop\<close>. The result carries \<open>Some e\<close> when \<open>loop\<close> returns
  \<open>e\<close>, and \<open>None\<close> when it goes round again after \<open>respond\<close>.
\<close>

datatype ('id, 'info) event = Dying | Change 'id | Request "'info allRequest"

definition loop_step ::
  "('id, 'info) allWatcher \<Rightarrow> ('id, 'info) event \<Rightarrow> wptr list
     \<Rightarrow> panic + (('id, 'info) allWatcher \<times> err option)" where
  "loop_step aw ev order =
     (case ev of
        Dying \<Rightarrow> Inr (aw, Some ErrDying)
      | Change eid \<Rightarrow>
          (case changed aw eid of
             Inl p \<Rightarrow> Inl p
           | Inr (aw', Some e) \<Rightarrow> Inr (aw', Some e)
           | Inr (aw', None) \<Rightarrow>
               (case respond aw' order of Inl p \<Rightarrow> Inl p | Inr aw'' \<Rightarrow> Inr (aw'', None)))
      | Request req \<Rightarrow>
          (case handle aw req of
             Inl p \<Rightarrow> Inl p
           | Inr aw' \<Rightarrow>
               (case respond aw' order of Inl p \<Rightarrow> Inl p | Inr aw'' \<Rightarrow> Inr (aw'', None))))"

text \<open>
  A run of \<open>loop\<close>. The store behind \<open>backing\<close> is outside the watcher and changes
  between turns: entities are added, changed and removed there. Each turn of the run
  therefore comes with what \<open>fetch\<close> answers during that turn, next to the event the
  \<open>select\<close> takes and the order in which \<open>respond\<close> then ranges over the waiting map.
  The run ends when \<open>loop\<close> returns.
\<close>

fun loop_run ::
  "('id, 'info) allWatcher
     \<Rightarrow> (('id \<Rightarrow> 'info \<times> err option) \<times> ('id, 'info) event \<times> wptr list) list
     \<Rightarrow> panic + (('id, 'info) allWatcher \<times> err option)" where
  "loop_run aw [] = Inr (aw, None)"
| "loop_run aw ((f, ev, order) # evs) =
     (case loop_step (aw\<lparr>backing := (backing aw)\<lparr>fetch := f\<rparr>\<rparr>) ev order of
        Inl p \<Rightarrow> Inl p
      | Inr (aw', Some e) \<Rightarrow> Inr (aw', Some e)
      | Inr (aw', None) \<Rightarrow> loop_run aw' evs)"

subsection \<open>changesSince, statement by statement\<close>

text \<open>
  \<open>changesSince\<close> has a pointer receiver and could write through it. Here its body is
  translated one statement at a time as a state transformer: every access to the
  receiver's memory takes the state and returns it with its result, and the state that
  comes back from one access goes into the next. What the method leaves behind is the
  state that comes out of its last statement.
\<close>

text \<open>
  A cursor is \<open>nil\<close> or an element of the list, given by its position from the front.
  The walk links and unlinks nothing, so position and element stand for each other.
  \<open>Front\<close>, \<open>Back\<close>, \<open>Next\<close> and \<open>Prev\<close> read the links and \<open>Value\<close> reads the entry
  behind an element; each hands back what it read and the memory it read it from.
\<close>

type_synonym cursor = "nat option"

definition Front :: "('id, 'info) allInfo \<Rightarrow> cursor \<times> ('id, 'info) allInfo" where
  "Front a = (if elist a = [] then None else Some 0, a)"

definition Back :: "('id, 'info) allInfo \<Rightarrow> cursor \<times> ('id, 'info) allInfo" where
  "Back a = (if elist a = [] then None else Some (length (elist a) - 1), a)"

definition Next :: "('id, 'info) allInfo \<Rightarrow> nat \<Rightarrow> cursor \<times> ('id, 'info) allInfo" where
  "Next a i = (if Suc i < length (elist a) then Some (Suc i) else None, a)"

definition Prev :: "('id, 'info) allInfo \<Rightarrow> nat \<Rightarrow> cursor \<times> ('id, 'info) allInfo" where
  "Prev a i = (if 0 < i then Some (i - 1) else None, a)"

definition Value ::
  "('id, 'info) allInfo \<Rightarrow> nat \<Rightarrow> 'info entityEntry \<times> ('id, 'info) allInfo" where
  "Value a i = (heap a (elist a ! i), a)"

text \<open>
  The first loop: \<open>for ; e != nil; e = e.Next()\<close>, leaving on \<open>break\<close> with the cursor
  on the element that stopped it, and counting \<open>n\<close>.
\<close>

function changesSince_st_scan ::
  "('id, 'info) allInfo \<Rightarrow> int64 \<Rightarrow> cursor \<Rightarrow> nat
     \<Rightarrow> (cursor \<times> nat) \<times> ('id, 'info) allInfo" where
  "changesSince_st_scan a r None n = ((None, n), a)"
| "changesSince_st_scan a r (Some i) n =
     (let (entry, a1) = Value a i
      in if revno entry \<le>s r then ((Some i, n), a1)
         else (let (e, a2) = Next a1 i in changesSince_st_scan a2 r e (n + 1)))"
  by pat_completeness auto
termination
  by (relation "measure (\<lambda>(a, r, e, n).
        case e of None \<Rightarrow> 0 | Some i \<Rightarrow> Suc (length (elist a) - i))")
     (auto simp: Value_def Next_def split: if_splits)

text \<open>
  The second loop: \<open>for ; e != nil; e = e.Prev()\<close>, where \<open>continue\<close> skips the
  \<open>append\<close> and still takes the step to \<open>Prev\<close>.
\<close>

function changesSince_st_collect ::
  "('id, 'info) allInfo \<Rightarrow> int64 \<Rightarrow> cursor \<Rightarrow> 'info Delta list
     \<Rightarrow> 'info Delta list \<times> ('id, 'info) allInfo" where
  "changesSince_st_collect a r None cs = (cs, a)"
| "changesSince_st_collect a r (Some i) cs =
     (let (entry, a1) = Value a i
      in if removed entry \<and> r <s creationRevno entry
         then (let (e, a2) = Prev a1 i in changesSince_st_collect a2 r e cs)
         else (let cs' = cs @ [\<lparr>Removed = removed entry, Entity = info entry\<rparr>];
                   (e, a2) = Prev a1 i
               in changesSince_st_collect a2 r e cs'))"
  by pat_completeness auto
termination
  by (relation "measure (\<lambda>(a, r, e, cs). case e of None \<Rightarrow> 0 | Some i \<Rightarrow> Suc i)")
     (auto simp: Value_def Prev_def split: if_splits)

text \<open>
  The body: \<open>Front\<close>, the first loop, then \<open>Prev\<close> of the element that stopped it or
  \<open>Back\<close> (and \<open>n++\<close>) when none did, the empty slice of capacity \<open>n\<close>, the second
  loop.
\<close>

definition changesSince_st ::
  "('id, 'info) allInfo \<Rightarrow> int64 \<Rightarrow> 'info Delta list \<times> ('id, 'info) allInfo" where
  "changesSince_st a r =
     (let (e, a1) = Front a;
          ((e, n), a2) = changesSince_st_scan a1 r e 0;
          ((e, n), a3) = (case e of
                            Some i \<Rightarrow> (let (p, a') = Prev a2 i in ((p, n), a'))
                          | None \<Rightarrow> (let (b, a') = Back a2 in ((b, n + 1), a')))
      in changesSince_st_collect a3 r e [])"

subsection \<open>Invariants of the data model\<close>

text \<open>The entries in list order, front first.\<close>

definition entries :: "('id, 'info) allInfo \<Rightarrow> 'info entityEntry list" where
  "entries a = map (heap a) (elist a)"

text \<open>The list is strictly descending in \<open>revno\<close> from the front.\<close>

definition revno_desc :: "'info entityEntry list \<Rightarrow> bool" where
  "revno_desc es = sorted_wrt (\<lambda>x y. revno y <s revno x) es"

text \<open>No entry is newer than \<open>latestRevno\<close>, and none was changed before it was created.\<close>

definition revno_bounded :: "('id, 'info) allInfo \<Rightarrow> bool" where
  "revno_bounded a =
     (\<forall>x\<in>set (entries a). creationRevno x \<le>s revno x \<and> revno x \<le>s latestRevno a)"

text \<open>Every linked element was handed out by the allocator.\<close>

definition allocated :: "('id, 'info) allInfo \<Rightarrow> bool" where
  "allocated a = (\<forall>e\<in>set (elist a). e < nextElem a)"

text \<open>Every element the map holds is linked in the list.\<close>

definition indexed :: "('id, 'info) allInfo \<Rightarrow> bool" where
  "indexed a = (\<forall>eid e. entities a eid = Some e \<longrightarrow> e \<in> set (elist a))"

text \<open>The three invariants that the mutations keep together.\<close>

definition inv3 :: "('id, 'info) allInfo \<Rightarrow> bool" where
  "inv3 a = (allocated a \<and> revno_desc (entries a) \<and> revno_bounded a)"

text \<open>
  The invariant between loop steps: the three above, every mapped element linked, no
  element mapped by two ids, and no element linked twice.
\<close>

definition consistent :: "('id, 'info) allInfo \<Rightarrow> bool" where
  "consistent a =
     (inv3 a \<and> indexed a \<and> inj_on (entities a) (dom (entities a)) \<and> distinct (elist a))"

text \<open>The largest \<open>int64\<close>; \<open>latestRevno++\<close> wraps to the smallest from here.\<close>

definition max_int64 :: int64 where
  "max_int64 = 0x7FFFFFFFFFFFFFFF"

text \<open>The \<open>params.Delta\<close> that \<open>changesSince\<close> builds from an entry.\<close>

definition delta_of :: "'info entityEntry \<Rightarrow> 'info Delta" where
  "delta_of x = \<lparr>Removed = removed x, Entity = info x\<rparr>"

subsection \<open>Example states\<close>

definition blank :: "string entityEntry" where
  "blank = \<lparr>revno = 0, creationRevno = 0, removed = False, refCount = 0, info = ''''\<rparr>"

definition idA :: entityId where
  "idA = \<lparr>collection = ''machines'', key = ''0''\<rparr>"

definition idB :: entityId where
  "idB = \<lparr>collection = ''services'', key = ''wordpress''\<rparr>"

definition idC :: entityId where
  "idC = \<lparr>collection = ''units'', key = ''wordpress/0''\<rparr>"

text \<open>
  Three entries, newest at the front: \<open>idC\<close> was created at revno 4 and removed at
  revno 5 with one watcher still to be told, \<open>idB\<close> was created at 1 and last changed
  at 3, \<open>idA\<close> was created at 2.
\<close>

definition ex3 :: "(entityId, string) allInfo" where
  "ex3 =
     \<lparr>latestRevno = 5,
      entities = [idA \<mapsto> 0, idB \<mapsto> 1, idC \<mapsto> 2],
      elist = [2, 1, 0],
      heap = (\<lambda>_. blank)
        (0 := \<lparr>revno = 2, creationRevno = 2, removed = False, refCount = 0, info = ''a''\<rparr>,
         1 := \<lparr>revno = 3, creationRevno = 1, removed = False, refCount = 1, info = ''b''\<rparr>,
         2 := \<lparr>revno = 5, creationRevno = 4, removed = True, refCount = 1, info = ''c''\<rparr>),
      nextElem = 3\<rparr>"

definition idD :: entityId where
  "idD = \<lparr>collection = ''relations'', key = ''7''\<rparr>"

text \<open>
  A backing whose \<open>fetch\<close> finds \<open>idA\<close>, reports \<open>idB\<close> as not found and fails on every
  other id.
\<close>

definition exBacking :: "(entityId, string) allWatcherBacking" where
  "exBacking =
     \<lparr>entityIdForInfo = (\<lambda>i. if i = ''a'' then idA else if i = ''b'' then idB
                              else if i = ''c'' then idC else idD),
      fetch = (\<lambda>eid. if eid = idA then (''a2'', None)
                      else if eid = idB then ('''', Some ErrNotFound)
                      else ('''', Some (Err ''connection closed'')))\<rparr>"

definition exWatcher :: "(entityId, string) allWatcher" where
  "exWatcher =
     \<lparr>backing = exBacking, all = ex3, waiting = Map.empty,
      watchers = (\<lambda>_. \<lparr>wrevno = 0, stopped = False\<rparr>), sent = []\<rparr>"

text \<open>The state after \<open>add\<close> of \<open>idA\<close> to the empty \<open>allInfo\<close>.\<close>

definition ex1 :: "(entityId, string) allInfo" where
  "ex1 =
     \<lparr>latestRevno = 1, entities = [idA \<mapsto> 0], elist = [0],
      heap = (\<lambda>_. blank)
        (0 := \<lparr>revno = 1, creationRevno = 1, removed = False, refCount = 0, info = ''a''\<rparr>),
      nextElem = 1\<rparr>"

text \<open>
  Two Next requests of watcher 0, and the watcher states after \<open>handle\<close> has queued
  \<open>req1\<close> and then \<open>req2\<close>.
\<close>

definition req1 :: "string allRequest" where
  "req1 = \<lparr>req_w = 0, reply = Some 1, changes = []\<rparr>"

definition req2 :: "string allRequest" where
  "req2 = \<lparr>req_w = 0, reply = Some 2, changes = []\<rparr>"

definition exW1 :: "(entityId, string) allWatcher" where
  "exW1 = exWatcher\<lparr>waiting := [0 \<mapsto> [req1]]\<rparr>"

definition exW2 :: "(entityId, string) allWatcher" where
  "exW2 = exWatcher\<lparr>waiting := [0 \<mapsto> [req2, req1]]\<rparr>"

text \<open>The watcher over the empty \<open>allInfo\<close>, before any change has arrived.\<close>

definition exNew :: "(entityId, string) allWatcher" where
  "exNew = exWatcher\<lparr>all := newAllInfo blank\<rparr>"

section \<open>Properties\<close>

subsection \<open>Signed arithmetic on revision numbers\<close>

lemma sint_max_int64: "sint max_int64 = 2 ^ 63 - 1"
  by (simp add: max_int64_def)

lemma sint_succ:
  fixes x :: int64
  assumes "x \<noteq> max_int64"
  shows "sint (x + 1) = sint x + 1"
proof -
  have "sint x \<noteq> sint max_int64" using assms by (auto dest: signed_word_eqI)
  moreover have "sint x < 2 ^ 63" using sint_lt [of x] by simp
  moreover have "- (2 ^ 63) \<le> sint x" using sint_ge [of x] by simp
  ultimately have "- (2 ^ 63) \<le> sint x + 1" "sint x + 1 < 2 ^ 63"
    by (simp_all add: sint_max_int64)
  then have "signed_take_bit 63 (sint x + 1) = sint x + 1"
    by (simp add: signed_take_bit_int_eq_self)
  then show ?thesis by (simp add: sint_word_ariths)
qed

lemma sless_succ: "x \<noteq> max_int64 \<Longrightarrow> x <s x + 1"
  by (simp add: word_sless_alt sint_succ)

lemma sle_sless_succ: "y \<le>s x \<Longrightarrow> x \<noteq> max_int64 \<Longrightarrow> y <s x + 1"
  by (simp add: word_sless_alt word_sle_eq sint_succ)

lemma sle_sle_succ: "y \<le>s x \<Longrightarrow> x \<noteq> max_int64 \<Longrightarrow> y \<le>s x + 1"
  by (simp add: word_sle_eq sint_succ)

subsection \<open>What changesSince computes\<close>

lemma scan_eq:
  "changesSince_scan h r before l = rev (takeWhile (\<lambda>e. r <s revno (h e)) l) @ before"
  by (induction l arbitrary: before) (auto simp: signed.not_le)

lemma collect_eq:
  "changesSince_collect h r bs acc =
     acc @ map delta_of (filter (\<lambda>x. \<not> (removed x \<and> r <s creationRevno x)) (map h bs))"
  by (induction bs arbitrary: acc) (auto simp: delta_of_def)

lemma changesSince_eq:
  "changesSince a r =
     map delta_of (filter (\<lambda>x. \<not> (removed x \<and> r <s creationRevno x))
        (rev (takeWhile (\<lambda>x. r <s revno x) (entries a))))"
  by (simp add: changesSince_def scan_eq collect_eq entries_def takeWhile_map rev_map comp_def)

lemma desc_takeWhile_filter:
  "revno_desc es \<Longrightarrow> takeWhile (\<lambda>x. r <s revno x) es = filter (\<lambda>x. r <s revno x) es"
proof (induction es)
  case Nil
  then show ?case by simp
next
  case (Cons x es)
  show ?case
  proof (cases "r <s revno x")
    case True
    with Cons show ?thesis by (simp add: revno_desc_def)
  next
    case False
    have "\<not> r <s revno y" if "y \<in> set es" for y
      using Cons.prems False that by (auto simp: revno_desc_def signed.not_less)
    then have "filter (\<lambda>x. r <s revno x) es = []" by (simp add: filter_empty_conv)
    with False show ?thesis by simp
  qed
qed

lemma ex3_entries:
  "entries ex3 =
     [\<lparr>revno = 5, creationRevno = 4, removed = True, refCount = 1, info = ''c''\<rparr>,
      \<lparr>revno = 3, creationRevno = 1, removed = False, refCount = 1, info = ''b''\<rparr>,
      \<lparr>revno = 2, creationRevno = 2, removed = False, refCount = 0, info = ''a''\<rparr>]"
  by (simp add: entries_def ex3_def)

lemma ex3_desc: "revno_desc (entries ex3)"
  by (simp add: ex3_entries revno_desc_def)

text \<open>
  C4. On a list that is strictly descending in revno, \<open>changesSince r\<close> returns one
  delta for each entry with \<open>revno > r\<close> that is not both removed and created after
  \<open>r\<close>; the deltas come oldest first, in ascending revno, and each carries the entry's
  removed flag and info.
\<close>

theorem changesSince_spec:
  assumes "revno_desc (entries a)"
  shows "changesSince a r =
           map delta_of
             (rev (filter (\<lambda>x. r <s revno x \<and> \<not> (removed x \<and> r <s creationRevno x))
                (entries a)))
         \<and> sorted_wrt (\<lambda>x y. revno x <s revno y)
             (rev (filter (\<lambda>x. r <s revno x \<and> \<not> (removed x \<and> r <s creationRevno x))
                (entries a)))"
proof
  show "changesSince a r =
          map delta_of
            (rev (filter (\<lambda>x. r <s revno x \<and> \<not> (removed x \<and> r <s creationRevno x))
               (entries a)))"
    using assms
    by (simp add: changesSince_eq desc_takeWhile_filter rev_filter [symmetric] conj_commute)
next
  have "sorted_wrt (\<lambda>x y. revno y <s revno x)
          (filter (\<lambda>x. r <s revno x \<and> \<not> (removed x \<and> r <s creationRevno x)) (entries a))"
    using assms by (simp add: revno_desc_def sorted_wrt_filter)
  then show "sorted_wrt (\<lambda>x y. revno x <s revno y)
          (rev (filter (\<lambda>x. r <s revno x \<and> \<not> (removed x \<and> r <s creationRevno x))
             (entries a)))"
    by (simp add: sorted_wrt_rev)
qed

theorem changesSince_spec_witness:
  "revno_desc (entries ex3) \<and>
   changesSince ex3 2 = [\<lparr>Removed = False, Entity = ''b''\<rparr>] \<and>
   changesSince ex3 0 =
     [\<lparr>Removed = False, Entity = ''a''\<rparr>, \<lparr>Removed = False, Entity = ''b''\<rparr>]"
  using changesSince_spec [OF ex3_desc, of 2] changesSince_spec [OF ex3_desc, of 0]
  by (simp add: ex3_entries revno_desc_def delta_of_def word_sless_alt)

subsection \<open>What changesSince leaves behind\<close>

text \<open>
  The equations of the two loops rewrite their own right-hand sides, so they are used
  one step at a time.
\<close>

declare changesSince_st_scan.simps(2) [simp del]
declare changesSince_st_collect.simps(2) [simp del]

lemma scan_st_step:
  "changesSince_st_scan a r (Some i) n =
     (if revno (heap a (elist a ! i)) \<le>s r then ((Some i, n), a)
      else changesSince_st_scan a r
             (if Suc i < length (elist a) then Some (Suc i) else None) (n + 1))"
  by (subst changesSince_st_scan.simps) (simp add: Value_def Next_def)

lemma collect_st_step:
  "changesSince_st_collect a r (Some i) cs =
     changesSince_st_collect a r (if 0 < i then Some (i - 1) else None)
       (if removed (heap a (elist a ! i)) \<and> r <s creationRevno (heap a (elist a ! i))
        then cs
        else cs @ [\<lparr>Removed = removed (heap a (elist a ! i)),
                      Entity = info (heap a (elist a ! i))\<rparr>])"
  by (subst changesSince_st_collect.simps) (simp add: Value_def Prev_def)

lemma scan_st:
  "i \<le> length (elist a) \<Longrightarrow>
   changesSince_st_scan a r (if i < length (elist a) then Some i else None) n =
     ((if i + length (takeWhile (\<lambda>e. r <s revno (heap a e)) (drop i (elist a)))
            < length (elist a)
       then Some (i + length (takeWhile (\<lambda>e. r <s revno (heap a e)) (drop i (elist a))))
       else None,
       n + length (takeWhile (\<lambda>e. r <s revno (heap a e)) (drop i (elist a)))), a)"
proof (induction "length (elist a) - i" arbitrary: i n)
  case 0
  then show ?case by simp
next
  case (Suc k)
  then have lt: "i < length (elist a)" by simp
  then have d: "drop i (elist a) = elist a ! i # drop (Suc i) (elist a)"
    by (simp add: Cons_nth_drop_Suc)
  have c: "(if i < length (elist a) then Some i else None) = Some i" using lt by simp
  show ?case
  proof (cases "revno (heap a (elist a ! i)) \<le>s r")
    case True
    then have "changesSince_st_scan a r (Some i) n = ((Some i, n), a)"
      by (subst scan_st_step) simp
    with True lt show ?thesis by (simp add: c d signed.not_less)
  next
    case False
    have k: "k = length (elist a) - Suc i" using Suc.hyps(2) by simp
    have le: "Suc i \<le> length (elist a)" using lt by simp
    have "changesSince_st_scan a r (Some i) n =
            changesSince_st_scan a r
              (if Suc i < length (elist a) then Some (Suc i) else None) (n + 1)"
      using False by (subst scan_st_step) simp
    also note Suc.hyps(1) [OF k le, of "n + 1"]
    finally show ?thesis using False by (simp add: c d signed.not_le)
  qed
qed


lemma collect_st:
  "k < length (elist a) \<Longrightarrow>
   changesSince_st_collect a r (Some k) cs =
     (changesSince_collect (heap a) r (rev (take (Suc k) (elist a))) cs, a)"
proof (induction k arbitrary: cs)
  case 0
  then have t: "take (Suc 0) (elist a) = [elist a ! 0]"
    by (cases "elist a") simp_all
  have "changesSince_st_collect a r (Some 0) cs =
          changesSince_st_collect a r None
            (if removed (heap a (elist a ! 0)) \<and> r <s creationRevno (heap a (elist a ! 0))
             then cs
             else cs @ [\<lparr>Removed = removed (heap a (elist a ! 0)),
                           Entity = info (heap a (elist a ! 0))\<rparr>])"
    by (subst collect_st_step) simp
  then show ?case by (simp add: t)
next
  case (Suc k)
  then have t: "rev (take (Suc (Suc k)) (elist a)) = elist a ! Suc k # rev (take (Suc k) (elist a))"
    by (simp add: take_Suc_conv_app_nth)
  from Suc have k: "k < length (elist a)" by simp
  have "changesSince_st_collect a r (Some (Suc k)) cs =
          changesSince_st_collect a r (Some k)
            (if removed (heap a (elist a ! Suc k)) \<and> r <s creationRevno (heap a (elist a ! Suc k))
             then cs
             else cs @ [\<lparr>Removed = removed (heap a (elist a ! Suc k)),
                           Entity = info (heap a (elist a ! Suc k))\<rparr>])"
    by (subst collect_st_step) simp
  then show ?case unfolding t by (simp add: Suc.IH [OF k])
qed

lemma changesSince_st_eq: "changesSince_st a r = (changesSince a r, a)"
proof -
  let ?P = "\<lambda>e. r <s revno (heap a e)"
  let ?l = "elist a"
  let ?j = "length (takeWhile ?P ?l)"
  have tw: "take ?j ?l = takeWhile ?P ?l" by (rule takeWhile_eq_take [symmetric])
  have pure: "changesSince a r = changesSince_collect (heap a) r (rev (take ?j ?l)) []"
    by (simp add: changesSince_def scan_eq tw)
  have jle: "?j \<le> length ?l" by (rule length_takeWhile_le)
  show ?thesis
  proof (cases "?l = []")
    case True
    then show ?thesis
      by (simp add: changesSince_st_def Front_def Back_def changesSince_def)
  next
    case False
    then have sc: "changesSince_st_scan a r (Some 0) 0 =
        ((if ?j < length ?l then Some ?j else None, ?j), a)"
      using scan_st [of 0 a r 0] by simp
    show ?thesis
    proof (cases "?j < length ?l")
      case lt: True
      show ?thesis
      proof (cases "?j = 0")
        case True
        with lt False show ?thesis
          by (simp add: changesSince_st_def Front_def sc Prev_def pure)
      next
        case nz: False
        then have "?j - 1 < length ?l" "Suc (?j - 1) = ?j" using lt by simp_all
        with collect_st [of "?j - 1" a r "[]"] lt False nz show ?thesis
          by (simp add: changesSince_st_def Front_def sc Prev_def pure)
      qed
    next
      case ge: False
      with jle have j: "?j = length ?l" by simp
      from False have "length ?l - 1 < length ?l" "Suc (length ?l - 1) = length ?l" by simp_all
      with collect_st [of "length ?l - 1" a r "[]"] ge False j show ?thesis
        by (simp add: changesSince_st_def Front_def sc Back_def pure)
    qed
  qed
qed

text \<open>
  C10. \<open>changesSince\<close> is read-only: run statement by statement from any state and for
  any revno, the state that comes out of the method is the state that went in,
  \<open>latestRevno\<close>, map, list and every entry included, and the slice it returns is the
  one \<open>changesSince\<close> computes.
\<close>

theorem changesSince_read_only:
  "snd (changesSince_st a r) = a
   \<and> latestRevno (snd (changesSince_st a r)) = latestRevno a
   \<and> entities (snd (changesSince_st a r)) = entities a
   \<and> elist (snd (changesSince_st a r)) = elist a
   \<and> heap (snd (changesSince_st a r)) = heap a
   \<and> fst (changesSince_st a r) = changesSince a r"
  by (simp add: changesSince_st_eq)

theorem changesSince_read_only_witness:
  "snd (changesSince_st ex3 2) = ex3
   \<and> fst (changesSince_st ex3 2) = [\<lparr>Removed = False, Entity = ''b''\<rparr>]"
  using changesSince_read_only [of ex3 2]
  by (simp add: changesSince_eq ex3_entries delta_of_def word_sless_alt)

lemmas ids = idA_def idB_def idC_def idD_def

subsection \<open>markRemoved\<close>

text \<open>
  C5. \<open>markRemoved\<close> leaves the state as it is when the id is absent or the entry is
  already removed. Otherwise it increments \<open>latestRevno\<close>; an entry with reference
  count 0 is then deleted from the map and the list, and any other entry gets
  \<open>removed = true\<close> and the new \<open>latestRevno\<close> as its revno and is moved to the front.
\<close>

theorem markRemoved_spec:
  "(entities a eid = None \<longrightarrow> markRemoved a eid = a)
   \<and> (\<forall>el. entities a eid = Some el \<and> removed (heap a el) \<longrightarrow> markRemoved a eid = a)
   \<and> (\<forall>el. entities a eid = Some el \<and> \<not> removed (heap a el) \<and> refCount (heap a el) = 0 \<longrightarrow>
         markRemoved a eid =
           a\<lparr>latestRevno := latestRevno a + 1,
             entities := (entities a)(eid := None),
             elist := removeAll el (elist a)\<rparr>
         \<and> entities (markRemoved a eid) eid = None
         \<and> el \<notin> set (elist (markRemoved a eid)))
   \<and> (\<forall>el. entities a eid = Some el \<and> \<not> removed (heap a el) \<and> refCount (heap a el) \<noteq> 0 \<longrightarrow>
         markRemoved a eid =
           a\<lparr>latestRevno := latestRevno a + 1,
             heap := (heap a)(el := (heap a el)\<lparr>revno := latestRevno a + 1, removed := True\<rparr>),
             elist := MoveToFront el (elist a)\<rparr>
         \<and> (el \<in> set (elist a) \<longrightarrow> elist (markRemoved a eid) = el # removeAll el (elist a)))"
  by (simp add: markRemoved_def delete_def Remove_def MoveToFront_def Let_def)

theorem markRemoved_spec_witness:
  "entities ex3 idD = None \<and> markRemoved ex3 idD = ex3
   \<and> entities ex3 idC = Some 2 \<and> removed (heap ex3 2) \<and> markRemoved ex3 idC = ex3
   \<and> entities ex3 idA = Some 0 \<and> \<not> removed (heap ex3 0) \<and> refCount (heap ex3 0) = 0
   \<and> latestRevno (markRemoved ex3 idA) = 6 \<and> elist (markRemoved ex3 idA) = [2, 1]
   \<and> entities (markRemoved ex3 idA) idA = None
   \<and> entities ex3 idB = Some 1 \<and> \<not> removed (heap ex3 1) \<and> refCount (heap ex3 1) \<noteq> 0
   \<and> latestRevno (markRemoved ex3 idB) = 6 \<and> elist (markRemoved ex3 idB) = [1, 2, 0]
   \<and> heap (markRemoved ex3 idB) 1 =
       \<lparr>revno = 6, creationRevno = 1, removed = True, refCount = 1, info = ''b''\<rparr>"
  using markRemoved_spec [of ex3 idD] markRemoved_spec [of ex3 idC]
    markRemoved_spec [of ex3 idA] markRemoved_spec [of ex3 idB]
  by (simp add: ex3_def ids markRemoved_def delete_def Remove_def MoveToFront_def)

subsection \<open>Precondition violations\<close>

text \<open>
  C3, as the code has it. \<open>add\<close> with an id already present panics. \<open>decRef\<close> panics
  when the decrement makes the count negative, and when it brings the count of a
  removed entry to zero and the id is not in the map. \<open>delete\<close> of an id that is not
  present returns with the state unchanged.
\<close>

theorem precondition_panics:
  "(entities a eid \<noteq> None \<longrightarrow>
      add a eid newInfo = Inl (Panic ''adding new entry with duplicate id''))
   \<and> (refCount (heap a e) - 1 <s 0 \<longrightarrow>
      decRef a e eid = Inl (Panic ''negative reference count''))
   \<and> (refCount (heap a e) = 1 \<and> removed (heap a e) \<and> entities a eid = None \<longrightarrow>
      decRef a e eid = Inl (Panic ''delete of non-existent entry''))
   \<and> (entities a eid = None \<longrightarrow> delete a eid = a)"
  by (auto simp: add_def decRef_def delete_def Let_def signed.less_asym)

theorem precondition_panics_witness:
  "entities ex3 idA \<noteq> None
   \<and> add ex3 idA ''x'' = Inl (Panic ''adding new entry with duplicate id'')
   \<and> refCount (heap ex3 0) - 1 <s 0
   \<and> decRef ex3 0 idA = Inl (Panic ''negative reference count'')
   \<and> refCount (heap ex3 2) = 1 \<and> removed (heap ex3 2) \<and> entities ex3 idD = None
   \<and> decRef ex3 2 idD = Inl (Panic ''delete of non-existent entry'')
   \<and> delete ex3 idD = ex3"
  using precondition_panics [where a = ex3 and eid = idA and e = 0 and newInfo = "''x''"]
    precondition_panics [where a = ex3 and eid = idD and e = 2 and newInfo = "''x''"]
  by (simp add: ex3_def ids word_sless_alt)

text \<open>
  The claim that \<open>delete\<close> of a missing id aborts fails: \<open>idD\<close> is not in the map of
  \<open>ex3\<close>, and \<open>delete\<close> returns the state it was given.
\<close>

theorem delete_missing_counterexample:
  "entities ex3 idD = None \<and> delete ex3 idD = ex3"
  by (simp add: delete_def ex3_def ids)

subsection \<open>changed\<close>

lemma update_no_panic: "\<exists>a'. update a eid newInfo = Inr a'"
  by (auto simp: update_def add_def PushFront_def Let_def split: option.splits)

text \<open>
  C9. \<open>changed\<close> fetches the entity. On not-found it calls \<open>markRemoved\<close> and returns no
  error. On any other error it returns that error with the state untouched, and \<open>loop\<close>
  returns it. Otherwise it calls \<open>update\<close>, which does not panic, and returns no error.
\<close>

theorem changed_spec:
  "(fetch (backing aw) eid = (i, Some ErrNotFound) \<longrightarrow>
      changed aw eid = Inr (aw\<lparr>all := markRemoved (all aw) eid\<rparr>, None))
   \<and> (fetch (backing aw) eid = (i, Some e) \<and> e \<noteq> ErrNotFound \<longrightarrow>
      changed aw eid = Inr (aw, Some e)
      \<and> loop_step aw (Change eid) order = Inr (aw, Some e))
   \<and> (fetch (backing aw) eid = (i, None) \<longrightarrow>
      (\<exists>a'. update (all aw) eid i = Inr a' \<and> changed aw eid = Inr (aw\<lparr>all := a'\<rparr>, None)))"
proof -
  obtain a' where "update (all aw) eid i = Inr a'"
    using update_no_panic [of "all aw" eid i] by blast
  then show ?thesis by (auto simp: changed_def loop_step_def)
qed

theorem changed_spec_witness:
  "fetch (backing exWatcher) idB = ('''', Some ErrNotFound)
   \<and> changed exWatcher idB = Inr (exWatcher\<lparr>all := markRemoved ex3 idB\<rparr>, None)
   \<and> fetch (backing exWatcher) idC = ('''', Some (Err ''connection closed''))
   \<and> changed exWatcher idC = Inr (exWatcher, Some (Err ''connection closed''))
   \<and> loop_step exWatcher (Change idC) [] = Inr (exWatcher, Some (Err ''connection closed''))
   \<and> fetch (backing exWatcher) idA = (''a2'', None)
   \<and> (\<exists>a'. update ex3 idA ''a2'' = Inr a'
         \<and> changed exWatcher idA = Inr (exWatcher\<lparr>all := a'\<rparr>, None))"
  using changed_spec [of exWatcher idB "''''" "Err ''connection closed''" "[]"]
    changed_spec [of exWatcher idC "''''" "Err ''connection closed''" "[]"]
    changed_spec [of exWatcher idA "''a2''" "Err ''connection closed''" "[]"]
  by (simp add: exWatcher_def exBacking_def ids)

subsection \<open>The mutations keep the invariants\<close>

lemma map_upd_notin: "e \<notin> set l \<Longrightarrow> map (h(e := x)) l = map h l"
  by (induction l) auto

lemma desc_removeAll:
  "revno_desc (map h l) \<Longrightarrow> revno_desc (map h (removeAll e l))"
  by (simp add: revno_desc_def sorted_wrt_map removeAll_filter_not_eq sorted_wrt_filter)

lemma desc_distinct: "revno_desc es \<Longrightarrow> distinct (map revno es)"
  by (induction es) (auto simp: revno_desc_def)

lemma desc_Cons:
  "revno_desc (x # es) = ((\<forall>y\<in>set es. revno y <s revno x) \<and> revno_desc es)"
  by (simp add: revno_desc_def)

lemma entries_touch_in:
  assumes "el \<in> set (elist a)"
  shows "entries (a\<lparr>latestRevno := n, heap := (heap a)(el := x),
                    elist := MoveToFront el (elist a)\<rparr>)
         = x # map (heap a) (removeAll el (elist a))"
  using assms by (simp add: entries_def MoveToFront_def map_upd_notin)

lemma entries_touch_notin:
  assumes "el \<notin> set (elist a)"
  shows "entries (a\<lparr>latestRevno := n, heap := (heap a)(el := x),
                    elist := MoveToFront el (elist a)\<rparr>)
         = entries a"
  using assms by (simp add: entries_def MoveToFront_def map_upd_notin)

lemma touch_inv:
  assumes inv: "inv3 a" and nomax: "latestRevno a \<noteq> max_int64"
    and cr: "creationRevno x = creationRevno (heap a el)"
    and rv: "revno x = latestRevno a + 1"
  shows "inv3 (a\<lparr>latestRevno := latestRevno a + 1, heap := (heap a)(el := x),
                 elist := MoveToFront el (elist a)\<rparr>)"
proof (cases "el \<in> set (elist a)")
  case True
  let ?a' = "a\<lparr>latestRevno := latestRevno a + 1, heap := (heap a)(el := x),
                 elist := MoveToFront el (elist a)\<rparr>"
  have e: "entries ?a' = x # map (heap a) (removeAll el (elist a))"
    using True by (rule entries_touch_in)
  have old: "creationRevno y \<le>s revno y \<and> revno y \<le>s latestRevno a" if "y \<in> set (entries a)" for y
    using inv that by (simp add: inv3_def revno_bounded_def)
  have sub: "set (map (heap a) (removeAll el (elist a))) \<subseteq> set (entries a)"
    by (auto simp: entries_def)
  have "heap a el \<in> set (entries a)" using True by (simp add: entries_def)
  then have "creationRevno x \<le>s latestRevno a"
    using old [of "heap a el"] cr by (auto intro: signed.order_trans)
  then have x: "creationRevno x \<le>s revno x" using nomax rv by (simp add: sle_sle_succ)
  have d: "revno_desc (entries ?a')"
    unfolding e desc_Cons
    using inv old sub nomax rv
    by (auto simp: inv3_def entries_def desc_removeAll sle_sless_succ)
  have b: "revno_bounded ?a'"
    unfolding revno_bounded_def e
    using old sub x nomax rv by (auto simp: sle_sle_succ)
  have "allocated ?a'" using inv True by (auto simp: inv3_def allocated_def MoveToFront_def)
  with d b show ?thesis by (simp add: inv3_def)
next
  case False
  let ?a' = "a\<lparr>latestRevno := latestRevno a + 1, heap := (heap a)(el := x),
                 elist := MoveToFront el (elist a)\<rparr>"
  have e: "entries ?a' = entries a" using False by (rule entries_touch_notin)
  have "allocated ?a'" using inv False by (auto simp: inv3_def allocated_def MoveToFront_def)
  moreover have "revno_desc (entries ?a')" using inv by (simp add: e inv3_def)
  moreover have "revno_bounded ?a'"
    unfolding revno_bounded_def e using inv nomax
    by (auto simp: inv3_def revno_bounded_def sle_sle_succ)
  ultimately show ?thesis by (simp add: inv3_def)
qed

lemma unlink_inv:
  assumes inv: "inv3 a" and le: "latestRevno a \<le>s n"
  shows "inv3 (a\<lparr>latestRevno := n, entities := m, elist := removeAll el (elist a)\<rparr>)"
proof -
  let ?a' = "a\<lparr>latestRevno := n, entities := m, elist := removeAll el (elist a)\<rparr>"
  have e: "entries ?a' = map (heap a) (removeAll el (elist a))" by (simp add: entries_def)
  have sub: "set (entries ?a') \<subseteq> set (entries a)" by (auto simp: entries_def)
  have "allocated ?a'" using inv by (auto simp: inv3_def allocated_def)
  moreover have "revno_desc (entries ?a')"
    unfolding e using inv by (simp add: inv3_def entries_def desc_removeAll)
  moreover have "revno_bounded ?a'"
    unfolding revno_bounded_def using inv sub le
    by (auto simp: inv3_def revno_bounded_def intro: signed.order_trans)
  ultimately show ?thesis by (simp add: inv3_def)
qed

lemma add_inv:
  assumes inv: "inv3 a" and nomax: "latestRevno a \<noteq> max_int64"
    and ad: "add a eid newInfo = Inr a'"
  shows "inv3 a'"
    and "entries a' = \<lparr>revno = latestRevno a + 1, creationRevno = latestRevno a + 1,
                        removed = False, refCount = 0, info = newInfo\<rparr> # entries a"
    and "latestRevno a' = latestRevno a + 1"
proof -
  have fresh: "nextElem a \<notin> set (elist a)" using inv by (auto simp: inv3_def allocated_def)
  have a': "a' = a\<lparr>latestRevno := latestRevno a + 1,
                    elist := nextElem a # elist a,
                    heap := (heap a)(nextElem a := \<lparr>revno = latestRevno a + 1,
                       creationRevno = latestRevno a + 1, removed = False, refCount = 0,
                       info = newInfo\<rparr>),
                    nextElem := Suc (nextElem a),
                    entities := (entities a)(eid \<mapsto> nextElem a)\<rparr>"
    using ad by (simp add: add_def PushFront_def Let_def split: if_splits)
  show e: "entries a' = \<lparr>revno = latestRevno a + 1, creationRevno = latestRevno a + 1,
                        removed = False, refCount = 0, info = newInfo\<rparr> # entries a"
    using fresh by (simp add: a' entries_def map_upd_notin)
  show l: "latestRevno a' = latestRevno a + 1" by (simp add: a')
  have old: "creationRevno y \<le>s revno y \<and> revno y \<le>s latestRevno a" if "y \<in> set (entries a)" for y
    using inv that by (simp add: inv3_def revno_bounded_def)
  have "allocated a'" using inv by (auto simp: a' inv3_def allocated_def)
  moreover have "revno_desc (entries a')"
    unfolding e desc_Cons using inv old nomax by (auto simp: inv3_def sle_sless_succ)
  moreover have "revno_bounded a'"
    unfolding revno_bounded_def e l using old nomax by (auto simp: sle_sle_succ)
  ultimately show "inv3 a'" by (simp add: inv3_def)
qed

lemma update_inv:
  assumes inv: "inv3 a" and nomax: "latestRevno a \<noteq> max_int64"
    and up: "update a eid newInfo = Inr a'"
  shows "inv3 a'"
proof (cases "entities a eid")
  case None
  with up have "add a eid newInfo = Inr a'" by (simp add: update_def)
  with inv nomax show ?thesis by (rule add_inv)
next
  case (Some el)
  show ?thesis
  proof (cases "newInfo = info (heap a el)")
    case True
    with Some up inv show ?thesis by (simp add: update_def)
  next
    case False
    with Some up have "a' = a\<lparr>latestRevno := latestRevno a + 1,
        heap := (heap a)(el := (heap a el)\<lparr>revno := latestRevno a + 1, info := newInfo\<rparr>),
        elist := MoveToFront el (elist a)\<rparr>"
      by (simp add: update_def Let_def)
    then show ?thesis using touch_inv [OF inv nomax, of "(heap a el)\<lparr>revno := latestRevno a + 1, info := newInfo\<rparr>" el]
      by simp
  qed
qed

lemma markRemoved_inv:
  assumes inv: "inv3 a" and nomax: "latestRevno a \<noteq> max_int64"
  shows "inv3 (markRemoved a eid)"
proof (cases "entities a eid")
  case None
  with inv show ?thesis by (simp add: markRemoved_def)
next
  case (Some el)
  consider "removed (heap a el)" | "\<not> removed (heap a el)" "refCount (heap a el) = 0"
    | "\<not> removed (heap a el)" "refCount (heap a el) \<noteq> 0" by blast
  then show ?thesis
  proof cases
    case 1
    with Some inv show ?thesis by (simp add: markRemoved_def)
  next
    case 2
    with Some have "markRemoved a eid = a\<lparr>latestRevno := latestRevno a + 1,
        entities := (entities a)(eid := None), elist := removeAll el (elist a)\<rparr>"
      by (simp add: markRemoved_def delete_def Remove_def Let_def)
    moreover have "latestRevno a \<le>s latestRevno a + 1"
      using nomax by (simp add: sle_sle_succ)
    ultimately show ?thesis using unlink_inv [OF inv] by simp
  next
    case 3
    with Some have "markRemoved a eid = a\<lparr>latestRevno := latestRevno a + 1,
        heap := (heap a)(el := (heap a el)\<lparr>revno := latestRevno a + 1, removed := True\<rparr>),
        elist := MoveToFront el (elist a)\<rparr>"
      by (simp add: markRemoved_def Let_def)
    then show ?thesis
      using touch_inv [OF inv nomax, of "(heap a el)\<lparr>revno := latestRevno a + 1, removed := True\<rparr>" el]
      by simp
  qed
qed

lemma refCount_upd_inv:
  assumes "inv3 a"
  shows "inv3 (a\<lparr>heap := (heap a)(e := (heap a e)\<lparr>refCount := rc\<rparr>)\<rparr>)"
proof -
  let ?h = "(heap a)(e := (heap a e)\<lparr>refCount := rc\<rparr>)"
  have eq: "(\<lambda>x y. revno (?h y) <s revno (?h x)) = (\<lambda>x y. revno (heap a y) <s revno (heap a x))"
    by (intro ext) simp
  have "revno_desc (map ?h l) = revno_desc (map (heap a) l)" for l
    by (simp only: revno_desc_def sorted_wrt_map eq)
  then show ?thesis using assms
    by (auto simp: inv3_def allocated_def entries_def revno_bounded_def)
qed

lemma decRef_inv:
  assumes inv: "inv3 a" and dr: "decRef a e eid = Inr a'"
  shows "inv3 a'"
proof -
  let ?a1 = "a\<lparr>heap := (heap a)(e := (heap a e)\<lparr>refCount := refCount (heap a e) - 1\<rparr>)\<rparr>"
  have i1: "inv3 ?a1" using inv by (rule refCount_upd_inv)
  from dr consider "a' = ?a1"
    | el where "a' = ?a1\<lparr>latestRevno := latestRevno ?a1, entities := (entities ?a1)(eid := None),
                        elist := removeAll el (elist ?a1)\<rparr>"
    by (auto simp: decRef_def Let_def Remove_def split: if_splits option.splits)
  then show ?thesis
  proof cases
    case 1
    with i1 show ?thesis by simp
  next
    case 2
    then show ?thesis using unlink_inv [OF i1, of "latestRevno ?a1"] by simp
  qed
qed


lemma ex3_inv3: "inv3 ex3"
  by (simp add: inv3_def allocated_def revno_bounded_def ex3_entries revno_desc_def word_sle_eq)
     (simp add: ex3_def)

lemma ex3_nomax: "latestRevno ex3 \<noteq> max_int64"
  by (simp add: ex3_def max_int64_def)

text \<open>
  C8. From a state whose list is strictly descending in revno, with no entry newer than
  \<open>latestRevno\<close> and the counter below the largest \<open>int64\<close>, each of \<open>add\<close>,
  \<open>update\<close>, \<open>markRemoved\<close> and \<open>decRef\<close> leaves the list strictly descending in
  revno, so no two entries share a revno.
\<close>

theorem list_stays_sorted:
  assumes "allocated a" and "revno_desc (entries a)" and "revno_bounded a"
    and "latestRevno a \<noteq> max_int64"
  shows "(add a eid newInfo = Inr a' \<longrightarrow>
            revno_desc (entries a') \<and> distinct (map revno (entries a')))
       \<and> (update a eid newInfo = Inr a' \<longrightarrow>
            revno_desc (entries a') \<and> distinct (map revno (entries a')))
       \<and> revno_desc (entries (markRemoved a eid))
       \<and> distinct (map revno (entries (markRemoved a eid)))
       \<and> (decRef a e eid = Inr a' \<longrightarrow>
            revno_desc (entries a') \<and> distinct (map revno (entries a')))"
proof -
  have inv: "inv3 a" using assms by (simp add: inv3_def)
  have d: "inv3 b \<Longrightarrow> revno_desc (entries b) \<and> distinct (map revno (entries b))" for b :: "('a, 'b) allInfo"
    by (simp add: inv3_def desc_distinct)
  show ?thesis
    using d [OF add_inv(1) [OF inv assms(4)]] d [OF update_inv [OF inv assms(4)]]
      d [OF markRemoved_inv [OF inv assms(4)]] d [OF decRef_inv [OF inv]]
    by blast
qed


lemmas ops = add_def update_def markRemoved_def decRef_def delete_def PushFront_def
  Remove_def MoveToFront_def

theorem list_stays_sorted_witness:
  "allocated ex3 \<and> revno_desc (entries ex3) \<and> revno_bounded ex3
   \<and> latestRevno ex3 \<noteq> max_int64
   \<and> (\<exists>a'. add ex3 idD ''d'' = Inr a' \<and> revno_desc (entries a')
          \<and> map revno (entries a') = [6, 5, 3, 2])
   \<and> (\<exists>a'. update ex3 idA ''a2'' = Inr a' \<and> revno_desc (entries a')
          \<and> map revno (entries a') = [6, 5, 3])
   \<and> revno_desc (entries (markRemoved ex3 idB))
   \<and> map revno (entries (markRemoved ex3 idB)) = [6, 5, 2]
   \<and> (\<exists>a'. decRef ex3 2 idC = Inr a' \<and> revno_desc (entries a')
          \<and> map revno (entries a') = [3, 2])"
  using list_stays_sorted [of ex3 idD "''d''" "projr (add ex3 idD ''d'')" 2]
    list_stays_sorted [of ex3 idA "''a2''" "projr (update ex3 idA ''a2'')" 2]
    list_stays_sorted [of ex3 idB "''b''" "projr (decRef ex3 2 idC)" 2]
    list_stays_sorted [of ex3 idC "''c''" "projr (decRef ex3 2 idC)" 2]
  by (simp add: ex3_def ids ops entries_def allocated_def revno_bounded_def revno_desc_def
      max_int64_def word_sle_eq word_sless_alt)


lemma bounded_revno: "inv3 b \<Longrightarrow> \<forall>x\<in>set (entries b). revno x \<le>s latestRevno b"
  by (simp add: inv3_def revno_bounded_def)

lemma update_front:
  assumes "entities a eid = Some el" and "el \<in> set (elist a)"
    and "newInfo \<noteq> info (heap a el)" and "update a eid newInfo = Inr a'"
  shows "latestRevno a' = latestRevno a + 1"
    and "entries a' = (heap a el)\<lparr>revno := latestRevno a + 1, info := newInfo\<rparr>
                        # map (heap a) (removeAll el (elist a))"
  using assms by (auto simp: update_def Let_def entries_def MoveToFront_def map_upd_notin)

lemma markRemoved_front:
  assumes "entities a eid = Some el" and "el \<in> set (elist a)"
    and "\<not> removed (heap a el)" and "refCount (heap a el) \<noteq> 0"
  shows "latestRevno (markRemoved a eid) = latestRevno a + 1"
    and "entries (markRemoved a eid) =
           (heap a el)\<lparr>revno := latestRevno a + 1, removed := True\<rparr>
             # map (heap a) (removeAll el (elist a))"
  using assms by (auto simp: markRemoved_def Let_def entries_def MoveToFront_def map_upd_notin)

text \<open>
  C2, as the code has it. After each mutation \<open>latestRevno\<close> is at least the revno of
  every entry in the list. After \<open>add\<close>, after an \<open>update\<close> that changes the info and
  after a \<open>markRemoved\<close> that keeps the entry, the front entry carries \<open>latestRevno\<close>,
  which is then the maximum.
\<close>

theorem latestRevno_upper_bound:
  assumes "allocated a" and "revno_desc (entries a)" and "revno_bounded a"
    and "latestRevno a \<noteq> max_int64"
  shows "(add a eid newInfo = Inr a' \<longrightarrow>
            (\<forall>x\<in>set (entries a'). revno x \<le>s latestRevno a')
            \<and> (\<exists>x es. entries a' = x # es \<and> revno x = latestRevno a'))
       \<and> (update a eid newInfo = Inr a' \<longrightarrow>
            (\<forall>x\<in>set (entries a'). revno x \<le>s latestRevno a')
            \<and> (\<forall>el. entities a eid = Some el \<and> el \<in> set (elist a)
                   \<and> newInfo \<noteq> info (heap a el) \<longrightarrow>
                 (\<exists>x es. entries a' = x # es \<and> revno x = latestRevno a')))
       \<and> (\<forall>x\<in>set (entries (markRemoved a eid)). revno x \<le>s latestRevno (markRemoved a eid))
       \<and> (\<forall>el. entities a eid = Some el \<and> el \<in> set (elist a)
              \<and> \<not> removed (heap a el) \<and> refCount (heap a el) \<noteq> 0 \<longrightarrow>
            (\<exists>x es. entries (markRemoved a eid) = x # es
                \<and> revno x = latestRevno (markRemoved a eid)))
       \<and> (decRef a e eid = Inr a' \<longrightarrow>
            (\<forall>x\<in>set (entries a'). revno x \<le>s latestRevno a'))"
proof -
  have inv: "inv3 a" using assms by (simp add: inv3_def)
  note nomax = assms(4)
  have "add a eid newInfo = Inr a' \<longrightarrow>
            (\<forall>x\<in>set (entries a'). revno x \<le>s latestRevno a')
            \<and> (\<exists>x es. entries a' = x # es \<and> revno x = latestRevno a')"
  proof
    assume ad: "add a eid newInfo = Inr a'"
    show "(\<forall>x\<in>set (entries a'). revno x \<le>s latestRevno a')
            \<and> (\<exists>x es. entries a' = x # es \<and> revno x = latestRevno a')"
      using bounded_revno [OF add_inv(1) [OF inv nomax ad]] add_inv(2,3) [OF inv nomax ad]
      by simp
  qed
  moreover have "update a eid newInfo = Inr a' \<longrightarrow>
            (\<forall>x\<in>set (entries a'). revno x \<le>s latestRevno a')
            \<and> (\<forall>el. entities a eid = Some el \<and> el \<in> set (elist a)
                   \<and> newInfo \<noteq> info (heap a el) \<longrightarrow>
                 (\<exists>x es. entries a' = x # es \<and> revno x = latestRevno a'))"
  proof
    assume up: "update a eid newInfo = Inr a'"
    have "\<exists>x es. entries a' = x # es \<and> revno x = latestRevno a'"
      if "entities a eid = Some el" "el \<in> set (elist a)" "newInfo \<noteq> info (heap a el)" for el
      using update_front [OF that up] by simp
    then show "(\<forall>x\<in>set (entries a'). revno x \<le>s latestRevno a')
            \<and> (\<forall>el. entities a eid = Some el \<and> el \<in> set (elist a)
                   \<and> newInfo \<noteq> info (heap a el) \<longrightarrow>
                 (\<exists>x es. entries a' = x # es \<and> revno x = latestRevno a'))"
      using bounded_revno [OF update_inv [OF inv nomax up]] by blast
  qed
  moreover have "\<forall>x\<in>set (entries (markRemoved a eid)). revno x \<le>s latestRevno (markRemoved a eid)"
    using bounded_revno [OF markRemoved_inv [OF inv nomax]] .
  moreover have "\<forall>el. entities a eid = Some el \<and> el \<in> set (elist a)
              \<and> \<not> removed (heap a el) \<and> refCount (heap a el) \<noteq> 0 \<longrightarrow>
            (\<exists>x es. entries (markRemoved a eid) = x # es
                \<and> revno x = latestRevno (markRemoved a eid))"
  proof (intro allI impI)
    fix el
    assume h: "entities a eid = Some el \<and> el \<in> set (elist a)
              \<and> \<not> removed (heap a el) \<and> refCount (heap a el) \<noteq> 0"
    then show "\<exists>x es. entries (markRemoved a eid) = x # es
                \<and> revno x = latestRevno (markRemoved a eid)"
      using markRemoved_front [of a eid el] by simp
  qed
  moreover have "decRef a e eid = Inr a' \<longrightarrow>
            (\<forall>x\<in>set (entries a'). revno x \<le>s latestRevno a')"
  proof
    assume dr: "decRef a e eid = Inr a'"
    show "\<forall>x\<in>set (entries a'). revno x \<le>s latestRevno a'"
      using bounded_revno [OF decRef_inv [OF inv dr]] .
  qed
  ultimately show ?thesis by blast
qed

theorem latestRevno_upper_bound_witness:
  "allocated ex3 \<and> revno_desc (entries ex3) \<and> revno_bounded ex3
   \<and> latestRevno ex3 \<noteq> max_int64
   \<and> (\<exists>a'. add ex3 idD ''d'' = Inr a' \<and> latestRevno a' = 6
          \<and> map revno (entries a') = [6, 5, 3, 2])
   \<and> (\<exists>a'. update ex3 idA ''a2'' = Inr a' \<and> latestRevno a' = 6
          \<and> map revno (entries a') = [6, 5, 3])
   \<and> latestRevno (markRemoved ex3 idB) = 6
   \<and> map revno (entries (markRemoved ex3 idB)) = [6, 5, 2]
   \<and> latestRevno (markRemoved ex3 idA) = 6
   \<and> map revno (entries (markRemoved ex3 idA)) = [5, 3]
   \<and> (\<exists>a'. decRef ex3 2 idC = Inr a' \<and> latestRevno a' = 5
          \<and> map revno (entries a') = [3, 2])"
  using latestRevno_upper_bound [of ex3 idD "''d''" "projr (add ex3 idD ''d'')" 2]
    latestRevno_upper_bound [of ex3 idA "''a2''" "projr (update ex3 idA ''a2'')" 2]
    latestRevno_upper_bound [of ex3 idB "''b''" "projr (decRef ex3 2 idC)" 2]
    latestRevno_upper_bound [of ex3 idC "''c''" "projr (decRef ex3 2 idC)" 2]
  by (simp add: ex3_def ids ops entries_def allocated_def revno_bounded_def revno_desc_def
      max_int64_def word_sle_eq word_sless_alt)

text \<open>
  The equality fails once an entry is deleted: \<open>markRemoved\<close> of the only entry, which
  no watcher has seen, empties the list and leaves \<open>latestRevno\<close> at 2; in \<open>ex3\<close> it
  deletes \<open>idA\<close> and leaves \<open>latestRevno\<close> at 6 above a largest revno of 5.
\<close>

theorem latestRevno_not_max_counterexample:
  "add (newAllInfo blank) idA ''a'' = Inr ex1
   \<and> entries (markRemoved ex1 idA) = []
   \<and> latestRevno (markRemoved ex1 idA) = 2
   \<and> map revno (entries ex3) = [5, 3, 2]
   \<and> map revno (entries (markRemoved ex3 idA)) = [5, 3]
   \<and> latestRevno (markRemoved ex3 idA) = 6"
  by (simp add: newAllInfo_def ex1_def ex3_def ids ops entries_def)

subsection \<open>Laws of add, markRemoved and update\<close>

lemma takeWhile_none: "(\<forall>y\<in>set es. \<not> P y) \<Longrightarrow> takeWhile P es = []"
  by (cases es) auto

lemma changesSince_front:
  assumes "entries b = x # es" and "r <s revno x" and "\<forall>y\<in>set es. revno y \<le>s r"
    and "\<not> (removed x \<and> r <s creationRevno x)"
  shows "changesSince b r = [delta_of x]"
proof -
  have "takeWhile (\<lambda>x. r <s revno x) es = []"
    using assms(3) by (intro takeWhile_none) (auto simp: signed.not_less)
  then show ?thesis using assms by (simp add: changesSince_eq)
qed

lemma add_then_markRemoved_state:
  assumes "add a eid newInfo = Inr a1"
  shows "markRemoved a1 eid =
           a\<lparr>latestRevno := latestRevno a + 1 + 1,
             heap := (heap a)(nextElem a := \<lparr>revno = latestRevno a + 1,
                creationRevno = latestRevno a + 1, removed = False, refCount = 0,
                info = newInfo\<rparr>),
             nextElem := Suc (nextElem a),
             elist := removeAll (nextElem a) (elist a)\<rparr>"
proof -
  have none: "entities a eid = None" using assms by (auto simp: add_def split: if_splits)
  then have "(entities a)(eid := None) = entities a" by auto
  then show ?thesis
    using assms none
    by (auto simp: add_def PushFront_def markRemoved_def delete_def Remove_def Let_def
        split: if_splits)
qed

text \<open>
  C6. \<open>add\<close> followed at once by \<open>markRemoved\<close> of the same id (the new entry has
  reference count 0) leaves the map and the list as they were before the \<open>add\<close>, so
  \<open>changesSince\<close> returns for every revno what it returned before: nothing for the id.
  In any state, a delta with \<open>Removed\<close> set comes from an entry created at or before
  the revno asked for.
\<close>

theorem add_then_markRemoved:
  assumes "allocated a" and "add a eid newInfo = Inr a1"
  shows "entities (markRemoved a1 eid) = entities a
       \<and> entities (markRemoved a1 eid) eid = None
       \<and> elist (markRemoved a1 eid) = elist a
       \<and> entries (markRemoved a1 eid) = entries a
       \<and> changesSince (markRemoved a1 eid) r = changesSince a r
       \<and> changesSince b r =
           map delta_of
             (filter (\<lambda>x. \<not> (removed x \<and> r <s creationRevno x))
                (rev (takeWhile (\<lambda>x. r <s revno x) (entries b))))
       \<and> (\<forall>d\<in>set (changesSince b r). Removed d \<longrightarrow>
             (\<exists>x\<in>set (entries b). d = delta_of x \<and> removed x
                 \<and> creationRevno x \<le>s r \<and> r <s revno x))"
proof -
  have fresh: "nextElem a \<notin> set (elist a)" using assms(1) by (auto simp: allocated_def)
  have none: "entities a eid = None" using assms(2) by (auto simp: add_def split: if_splits)
  note st = add_then_markRemoved_state [OF assms(2)]
  have l: "elist (markRemoved a1 eid) = elist a" using fresh by (simp add: st)
  have e: "entries (markRemoved a1 eid) = entries a"
    using fresh by (simp add: st entries_def map_upd_notin)
  have "entities (markRemoved a1 eid) = entities a" by (simp add: st)
  moreover have "changesSince (markRemoved a1 eid) r = changesSince a r"
    by (simp add: changesSince_eq e)
  moreover have "changesSince b r =
           map delta_of
             (filter (\<lambda>x. \<not> (removed x \<and> r <s creationRevno x))
                (rev (takeWhile (\<lambda>x. r <s revno x) (entries b))))"
    by (rule changesSince_eq)
  moreover have "\<forall>d\<in>set (changesSince b r). Removed d \<longrightarrow>
             (\<exists>x\<in>set (entries b). d = delta_of x \<and> removed x
                 \<and> creationRevno x \<le>s r \<and> r <s revno x)"
  proof (intro ballI impI)
    fix d
    assume d: "d \<in> set (changesSince b r)" and rm: "Removed d"
    from d obtain x where x: "x \<in> set (takeWhile (\<lambda>x. r <s revno x) (entries b))"
      and k: "\<not> (removed x \<and> r <s creationRevno x)" and dx: "d = delta_of x"
      by (auto simp: changesSince_eq)
    from rm dx have "removed x" by (simp add: delta_of_def)
    with k have "creationRevno x \<le>s r" by (simp add: signed.not_less)
    moreover from x have "x \<in> set (entries b)" "r <s revno x"
      by (auto dest: set_takeWhileD)
    ultimately show "\<exists>x\<in>set (entries b). d = delta_of x \<and> removed x
                 \<and> creationRevno x \<le>s r \<and> r <s revno x"
      using dx \<open>removed x\<close> by blast
  qed
  ultimately show ?thesis using l e none by simp
qed

lemma ex3_allocated: "allocated ex3"
  by (simp add: allocated_def ex3_def)

lemma ex3_add_idD: "add ex3 idD ''d'' = Inr (projr (add ex3 idD ''d''))"
  by (simp add: add_def PushFront_def ex3_def ids)

theorem add_then_markRemoved_witness:
  "allocated ex3
   \<and> add ex3 idD ''d'' = Inr (projr (add ex3 idD ''d''))
   \<and> entities (markRemoved (projr (add ex3 idD ''d'')) idD) idD = None
   \<and> elist (markRemoved (projr (add ex3 idD ''d'')) idD) = [2, 1, 0]
   \<and> changesSince (markRemoved (projr (add ex3 idD ''d'')) idD) 0 =
       [\<lparr>Removed = False, Entity = ''a''\<rparr>, \<lparr>Removed = False, Entity = ''b''\<rparr>]
   \<and> changesSince (markRemoved (projr (add ex3 idD ''d'')) idD) 5 = []
   \<and> changesSince ex3 3 = []
   \<and> changesSince ex3 4 = [\<lparr>Removed = True, Entity = ''c''\<rparr>]"
proof -
  note t = add_then_markRemoved [OF ex3_allocated ex3_add_idD, of _ ex3]
  have l: "elist ex3 = [2, 1, 0]" by (simp add: ex3_def)
  have c0: "changesSince ex3 0 =
       [\<lparr>Removed = False, Entity = ''a''\<rparr>, \<lparr>Removed = False, Entity = ''b''\<rparr>]"
    and c5: "changesSince ex3 5 = []" and c3: "changesSince ex3 3 = []"
    and c4: "changesSince ex3 4 = [\<lparr>Removed = True, Entity = ''c''\<rparr>]"
    by (simp_all add: changesSince_eq ex3_entries delta_of_def word_sless_alt)
  show ?thesis
    using t [of 0] t [of 5] by (simp add: ex3_allocated ex3_add_idD [symmetric] l c0 c5 c3 c4)
qed

lemma update_again:
  assumes "update a eid newInfo = Inr a1"
  shows "update a1 eid newInfo = Inr a1"
proof (cases "entities a eid")
  case None
  with assms have "add a eid newInfo = Inr a1" by (simp add: update_def)
  then have "entities a1 eid = Some (nextElem a)" "info (heap a1 (nextElem a)) = newInfo"
    by (auto simp: add_def PushFront_def Let_def split: if_splits)
  then show ?thesis by (simp add: update_def)
next
  case (Some el)
  show ?thesis
  proof (cases "newInfo = info (heap a el)")
    case True
    with Some assms show ?thesis by (simp add: update_def)
  next
    case False
    with Some assms have "entities a1 eid = Some el" "info (heap a1 el) = newInfo"
      by (auto simp: update_def Let_def)
    then show ?thesis by (simp add: update_def)
  qed
qed


lemma update_one_delta:
  assumes inv: "inv3 a" and ix: "indexed a" and nomax: "latestRevno a \<noteq> max_int64"
    and eff: "\<not> (\<exists>el. entities a eid = Some el \<and> info (heap a el) = newInfo)"
    and up: "update a eid newInfo = Inr a1"
  shows "length (changesSince a1 (latestRevno a)) = 1
       \<and> map Entity (changesSince a1 (latestRevno a)) = [newInfo]"
proof -
  have old: "creationRevno y \<le>s revno y \<and> revno y \<le>s latestRevno a"
    if "y \<in> set (entries a)" for y
    using inv that by (simp add: inv3_def revno_bounded_def)
  show ?thesis
  proof (cases "entities a eid")
    case None
    with up have ad: "add a eid newInfo = Inr a1" by (simp add: update_def)
    have "changesSince a1 (latestRevno a) =
            [delta_of \<lparr>revno = latestRevno a + 1, creationRevno = latestRevno a + 1,
                        removed = False, refCount = 0, info = newInfo\<rparr>]"
      using add_inv(2) [OF inv nomax ad]
    proof (rule changesSince_front)
      show "latestRevno a <s revno \<lparr>revno = latestRevno a + 1,
              creationRevno = latestRevno a + 1, removed = False, refCount = 0,
              info = newInfo\<rparr>"
        using nomax by (simp add: sless_succ)
    qed (use old in simp_all)
    then show ?thesis by (simp add: delta_of_def)
  next
    case (Some el)
    with eff ix have el: "el \<in> set (elist a)" and ne: "newInfo \<noteq> info (heap a el)"
      by (auto simp: indexed_def)
    have "heap a el \<in> set (entries a)" using el by (simp add: entries_def)
    then have cr: "creationRevno (heap a el) \<le>s latestRevno a"
      using old [of "heap a el"] by (auto intro: signed.order_trans)
    have sub: "set (map (heap a) (removeAll el (elist a))) \<subseteq> set (entries a)"
      by (auto simp: entries_def)
    have "changesSince a1 (latestRevno a) =
            [delta_of ((heap a el)\<lparr>revno := latestRevno a + 1, info := newInfo\<rparr>)]"
      using update_front(2) [OF Some el ne up]
    proof (rule changesSince_front)
      show "latestRevno a <s revno ((heap a el)\<lparr>revno := latestRevno a + 1, info := newInfo\<rparr>)"
        using nomax by (simp add: sless_succ)
      show "\<forall>y\<in>set (map (heap a) (removeAll el (elist a))). revno y \<le>s latestRevno a"
        using old sub by blast
      show "\<not> (removed ((heap a el)\<lparr>revno := latestRevno a + 1, info := newInfo\<rparr>)
               \<and> latestRevno a <s creationRevno ((heap a el)\<lparr>revno := latestRevno a + 1, info := newInfo\<rparr>))"
        using cr by (simp add: signed.not_less)
    qed
    then show ?thesis by (simp add: delta_of_def)
  qed
qed

text \<open>
  C7. \<open>update\<close> with the info that is already stored changes nothing. A second
  \<open>update\<close> with the same info is therefore a no-op, and when the first one took
  effect the two together show as one delta, carrying that info.
\<close>

theorem update_idempotent:
  "(\<forall>el. entities a eid = Some el \<and> info (heap a el) = newInfo \<longrightarrow>
       update a eid newInfo = Inr a)
   \<and> (update a eid newInfo = Inr a1 \<longrightarrow> update a1 eid newInfo = Inr a1)
   \<and> (allocated a \<and> revno_desc (entries a) \<and> revno_bounded a \<and> indexed a
        \<and> latestRevno a \<noteq> max_int64
        \<and> \<not> (\<exists>el. entities a eid = Some el \<and> info (heap a el) = newInfo)
        \<and> update a eid newInfo = Inr a1 \<and> update a1 eid newInfo = Inr a2 \<longrightarrow>
      length (changesSince a2 (latestRevno a)) = 1
      \<and> map Entity (changesSince a2 (latestRevno a)) = [newInfo])"
proof -
  have 1: "\<forall>el. entities a eid = Some el \<and> info (heap a el) = newInfo \<longrightarrow>
       update a eid newInfo = Inr a"
    by (simp add: update_def)
  have 2: "update a eid newInfo = Inr a1 \<longrightarrow> update a1 eid newInfo = Inr a1"
    by (simp add: update_again)
  have 3: "length (changesSince a2 (latestRevno a)) = 1
      \<and> map Entity (changesSince a2 (latestRevno a)) = [newInfo]"
    if h: "allocated a \<and> revno_desc (entries a) \<and> revno_bounded a \<and> indexed a
        \<and> latestRevno a \<noteq> max_int64
        \<and> \<not> (\<exists>el. entities a eid = Some el \<and> info (heap a el) = newInfo)
        \<and> update a eid newInfo = Inr a1 \<and> update a1 eid newInfo = Inr a2"
  proof -
    from h have inv: "inv3 a" by (simp add: inv3_def)
    from h have up: "update a eid newInfo = Inr a1" by simp
    from h update_again [OF up] have a2: "a2 = a1" by simp
    from h show ?thesis
      using update_one_delta [OF inv _ _ _ up] by (simp add: a2)
  qed
  from 1 2 3 show ?thesis by blast
qed


lemma ex3_indexed: "indexed ex3"
  by (simp add: indexed_def ex3_def)

lemma ex3_bounded: "revno_bounded ex3"
  using ex3_inv3 by (simp add: inv3_def)

lemma ex3_update_idA: "update ex3 idA ''a2'' = Inr (projr (update ex3 idA ''a2''))"
  by (simp add: update_def ex3_def ids)

theorem update_idempotent_witness:
  "entities ex3 idB = Some 1 \<and> info (heap ex3 1) = ''b'' \<and> update ex3 idB ''b'' = Inr ex3
   \<and> allocated ex3 \<and> revno_desc (entries ex3) \<and> revno_bounded ex3 \<and> indexed ex3
   \<and> latestRevno ex3 \<noteq> max_int64
   \<and> \<not> (\<exists>el. entities ex3 idA = Some el \<and> info (heap ex3 el) = ''a2'')
   \<and> update ex3 idA ''a2'' = Inr (projr (update ex3 idA ''a2''))
   \<and> update (projr (update ex3 idA ''a2'')) idA ''a2'' = Inr (projr (update ex3 idA ''a2''))
   \<and> length (changesSince (projr (update ex3 idA ''a2'')) (latestRevno ex3)) = 1
   \<and> map Entity (changesSince (projr (update ex3 idA ''a2'')) (latestRevno ex3)) = [''a2'']"
proof -
  have b: "entities ex3 idB = Some 1 \<and> info (heap ex3 1) = ''b''"
    by (simp add: ex3_def ids)
  have n: "\<not> (\<exists>el. entities ex3 idA = Some el \<and> info (heap ex3 el) = ''a2'')"
    by (simp add: ex3_def ids)
  note t1 = update_idempotent [of ex3 idB "''b''" ex3 ex3]
  note t2 = update_idempotent [of ex3 idA "''a2''" "projr (update ex3 idA ''a2'')"
      "projr (update ex3 idA ''a2'')"]
  from t1 b have 1: "update ex3 idB ''b'' = Inr ex3" by blast
  from t2 ex3_update_idA
  have 2: "update (projr (update ex3 idA ''a2'')) idA ''a2'' = Inr (projr (update ex3 idA ''a2''))"
    by blast
  from t2 ex3_allocated ex3_desc ex3_bounded ex3_indexed ex3_nomax n ex3_update_idA 2
  have 3: "length (changesSince (projr (update ex3 idA ''a2'')) (latestRevno ex3)) = 1
    \<and> map Entity (changesSince (projr (update ex3 idA ''a2'')) (latestRevno ex3)) = [''a2'']"
    by blast
  from b 1 ex3_allocated ex3_desc ex3_bounded ex3_indexed ex3_nomax n ex3_update_idA 2 3
  show ?thesis by blast
qed

subsection \<open>handle and respond\<close>

lemma seen_frame:
  "seen aw r = Inr aw' \<Longrightarrow> aw' = aw\<lparr>all := all aw'\<rparr>"
  by (auto simp: seen_def split: sum.splits)

lemma respond_step_head:
  assumes "waiting aw w = Some (req # rest)"
    and "changesSince (all aw) (wrevno (watchers aw w)) \<noteq> []"
    and "respond_step aw w = Inr aw'"
  shows "sent aw' =
           sent aw @ [(req\<lparr>changes := changesSince (all aw) (wrevno (watchers aw w))\<rparr>, True)]"
    and "wrevno (watchers aw' w) = latestRevno (all aw)"
    and "waiting aw' w = (if rest = [] then None else Some rest)"
    and "w' \<noteq> w \<Longrightarrow> waiting aw' w' = waiting aw w'"
    and "w' \<noteq> w \<Longrightarrow> watchers aw' w' = watchers aw w'"
proof -
  let ?cs = "changesSince (all aw) (wrevno (watchers aw w))"
  let ?aw1 = "aw\<lparr>watchers := (watchers aw)(w := (watchers aw w)\<lparr>wrevno := latestRevno (all aw)\<rparr>)\<rparr>"
  let ?aw2 = "send ?aw1 (req\<lparr>changes := ?cs\<rparr>) True"
  let ?aw3 = "if rest = [] then ?aw2\<lparr>waiting := (waiting ?aw2)(w := None)\<rparr>
              else ?aw2\<lparr>waiting := (waiting ?aw2)(w \<mapsto> rest)\<rparr>"
  have "seen ?aw3 (wrevno (watchers aw w)) = Inr aw'"
    using assms by (simp add: respond_step_def Let_def)
  then have a': "aw' = ?aw3\<lparr>all := all aw'\<rparr>" by (rule seen_frame)
  show "sent aw' = sent aw @ [(req\<lparr>changes := ?cs\<rparr>, True)]"
    by (subst a') (simp add: send_def)
  show "wrevno (watchers aw' w) = latestRevno (all aw)"
    by (subst a') (simp add: send_def)
  show "waiting aw' w = (if rest = [] then None else Some rest)"
    by (subst a') (simp add: send_def)
  show "w' \<noteq> w \<Longrightarrow> waiting aw' w' = waiting aw w'"
    by (subst a') (simp add: send_def)
  show "w' \<noteq> w \<Longrightarrow> watchers aw' w' = watchers aw w'"
    by (subst a') (simp add: send_def)
qed

lemma respond_step_idle:
  assumes "waiting aw w = None \<or> changesSince (all aw) (wrevno (watchers aw w)) = []"
  shows "respond_step aw w = Inr aw"
  using assms by (auto simp: respond_step_def Let_def split: option.splits)


lemma respond_step_cases:
  assumes "respond_step aw w = Inr aw'"
  shows "aw' = aw
       \<or> (\<exists>req rest. waiting aw w = Some (req # rest)
             \<and> changesSince (all aw) (wrevno (watchers aw w)) \<noteq> []
             \<and> sent aw' = sent aw @
                 [(req\<lparr>changes := changesSince (all aw) (wrevno (watchers aw w))\<rparr>, True)]
             \<and> waiting aw' w = (if rest = [] then None else Some rest)
             \<and> (\<forall>w'. w' \<noteq> w \<longrightarrow> waiting aw' w' = waiting aw w'))"
proof (cases "waiting aw w = None \<or> changesSince (all aw) (wrevno (watchers aw w)) = []")
  case True
  then have "respond_step aw w = Inr aw" by (rule respond_step_idle)
  with assms show ?thesis by simp
next
  case False
  then obtain q where q: "waiting aw w = Some q"
    and cs: "changesSince (all aw) (wrevno (watchers aw w)) \<noteq> []" by auto
  with assms obtain req rest where "q = req # rest"
    by (cases q) (auto simp: respond_step_def Let_def)
  with q have h: "waiting aw w = Some (req # rest)" by simp
  show ?thesis
    using respond_step_head(1,3,4) [OF h cs assms] h cs by blast
qed

lemma respond_step_other:
  "respond_step aw w = Inr aw' \<Longrightarrow> w' \<noteq> w \<Longrightarrow> waiting aw' w' = waiting aw w'"
  using respond_step_cases [of aw w aw'] by auto

lemma respond_step_sent:
  "respond_step aw w = Inr aw' \<Longrightarrow> set (sent aw) \<subseteq> set (sent aw')"
  using respond_step_cases [of aw w aw'] by auto

lemma respond_sent:
  "respond aw order = Inr aw' \<Longrightarrow> set (sent aw) \<subseteq> set (sent aw')"
proof (induction order arbitrary: aw)
  case Nil
  then show ?case by simp
next
  case (Cons w order)
  then obtain aw1 where 1: "respond_step aw w = Inr aw1" and 2: "respond aw1 order = Inr aw'"
    by (auto split: sum.splits)
  from respond_step_sent [OF 1] Cons.IH [OF 2] show ?case by blast
qed

lemma respond_other:
  "respond aw order = Inr aw' \<Longrightarrow> w \<notin> set order \<Longrightarrow> waiting aw' w = waiting aw w"
proof (induction order arbitrary: aw)
  case Nil
  then show ?case by simp
next
  case (Cons v order)
  then obtain aw1 where 1: "respond_step aw v = Inr aw1" and 2: "respond aw1 order = Inr aw'"
    by (auto split: sum.splits)
  from Cons.prems have "w \<noteq> v" "w \<notin> set order" by auto
  with respond_step_other [OF 1] Cons.IH [OF 2] show ?case by simp
qed

lemma respond_pass:
  assumes "respond aw order = Inr aw'" and "distinct order" and "w \<in> set order"
  shows "waiting aw' w = waiting aw w
       \<or> (\<exists>req rest cs. waiting aw w = Some (req # rest)
             \<and> waiting aw' w = (if rest = [] then None else Some rest)
             \<and> (req\<lparr>changes := cs\<rparr>, True) \<in> set (sent aw'))"
  using assms
proof (induction order arbitrary: aw)
  case Nil
  then show ?case by simp
next
  case (Cons v order)
  then obtain aw1 where 1: "respond_step aw v = Inr aw1" and 2: "respond aw1 order = Inr aw'"
    by (auto split: sum.splits)
  show ?case
  proof (cases "w = v")
    case True
    with Cons.prems have "w \<notin> set order" by simp
    then have keep: "waiting aw' w = waiting aw1 w" using 2 by (rule respond_other [rotated])
    from respond_step_cases [OF 1] show ?thesis
    proof
      assume "aw1 = aw"
      with keep show ?thesis by simp
    next
      assume "\<exists>req rest. waiting aw v = Some (req # rest)
             \<and> changesSince (all aw) (wrevno (watchers aw v)) \<noteq> []
             \<and> sent aw1 = sent aw @
                 [(req\<lparr>changes := changesSince (all aw) (wrevno (watchers aw v))\<rparr>, True)]
             \<and> waiting aw1 v = (if rest = [] then None else Some rest)
             \<and> (\<forall>w'. w' \<noteq> v \<longrightarrow> waiting aw1 w' = waiting aw w')"
      then obtain req rest where h: "waiting aw v = Some (req # rest)"
        and s: "sent aw1 = sent aw @
                 [(req\<lparr>changes := changesSince (all aw) (wrevno (watchers aw v))\<rparr>, True)]"
        and t: "waiting aw1 v = (if rest = [] then None else Some rest)" by blast
      from s have "(req\<lparr>changes := changesSince (all aw) (wrevno (watchers aw v))\<rparr>, True)
                     \<in> set (sent aw1)" by simp
      with respond_sent [OF 2]
      have "(req\<lparr>changes := changesSince (all aw) (wrevno (watchers aw v))\<rparr>, True)
                     \<in> set (sent aw')" by blast
      with h t keep True show ?thesis by auto
    qed
  next
    case False
    with Cons.prems have w: "w \<in> set order" and d: "distinct order" by auto
    from respond_step_other [OF 1 False] have "waiting aw1 w = waiting aw w" .
    with Cons.IH [OF 2 d w] show ?thesis by simp
  qed
qed


lemma ex3_changes0:
  "changesSince ex3 0 =
     [\<lparr>Removed = False, Entity = ''a''\<rparr>, \<lparr>Removed = False, Entity = ''b''\<rparr>]"
  by (simp add: changesSince_eq ex3_entries delta_of_def word_sless_alt)

lemma exW_handle:
  "handle exWatcher req1 = Inr exW1" "handle exW1 req2 = Inr exW2"
  by (simp_all add: handle_def exWatcher_def exW1_def exW2_def req1_def req2_def pending_def)

lemma exW2_seen:
  "seen_loop (entityIdForInfo exBacking) ex3 0 (elist ex3) =
     Inr (ex3\<lparr>heap := (heap ex3)
       (1 := \<lparr>revno = 3, creationRevno = 1, removed = False, refCount = 2, info = ''b''\<rparr>,
        0 := \<lparr>revno = 2, creationRevno = 2, removed = False, refCount = 1, info = ''a''\<rparr>)\<rparr>)"
  by (simp add: ex3_def word_sless_alt word_sle_eq)

lemma exW2_step:
  "respond_step exW2 0 =
     Inr (exW2\<lparr>watchers := (watchers exW2)(0 := \<lparr>wrevno = 5, stopped = False\<rparr>),
               sent := [(req2\<lparr>changes := changesSince ex3 0\<rparr>, True)],
               waiting := [0 \<mapsto> [req1]],
               all := ex3\<lparr>heap := (heap ex3)
       (1 := \<lparr>revno = 3, creationRevno = 1, removed = False, refCount = 2, info = ''b''\<rparr>,
        0 := \<lparr>revno = 2, creationRevno = 2, removed = False, refCount = 1, info = ''a''\<rparr>)\<rparr>\<rparr>)"
  by (simp add: respond_step_def exW2_def exWatcher_def ex3_changes0 Let_def send_def seen_def
      exW2_seen)
     (simp add: ex3_def)


text \<open>
  C1, as the code has it. \<open>handle\<close> puts a Next request at the head of its watcher's
  chain, and one iteration of \<open>respond\<close> serves the head, the request queued last: it
  sets that request's changes to the delta list, advances the watcher's revno to
  \<open>latestRevno\<close>, sends \<open>true\<close> on that request's reply channel and takes it off the
  chain. In a whole pass a watcher's chain loses at most its head; the requests behind
  it, which are older, stay queued.
\<close>

theorem respond_serves_head:
  "(\<not> stopped (watchers aw (req_w req)) \<and> reply req \<noteq> None \<longrightarrow>
      handle aw req =
        Inr (aw\<lparr>waiting := (waiting aw)(req_w req \<mapsto> req # pending aw (req_w req))\<rparr>))
   \<and> (waiting aw w = Some (rq # rest)
        \<and> changesSince (all aw) (wrevno (watchers aw w)) \<noteq> []
        \<and> respond_step aw w = Inr aw' \<longrightarrow>
      sent aw' =
        sent aw @ [(rq\<lparr>changes := changesSince (all aw) (wrevno (watchers aw w))\<rparr>, True)]
      \<and> wrevno (watchers aw' w) = latestRevno (all aw)
      \<and> waiting aw' w = (if rest = [] then None else Some rest))
   \<and> (distinct order \<and> w \<in> set order \<and> respond aw order = Inr aw'' \<longrightarrow>
      waiting aw'' w = waiting aw w
      \<or> (\<exists>rq rest cs. waiting aw w = Some (rq # rest)
            \<and> waiting aw'' w = (if rest = [] then None else Some rest)
            \<and> (rq\<lparr>changes := cs\<rparr>, True) \<in> set (sent aw'')))"
proof (intro conjI impI)
  assume "\<not> stopped (watchers aw (req_w req)) \<and> reply req \<noteq> None"
  then show "handle aw req =
        Inr (aw\<lparr>waiting := (waiting aw)(req_w req \<mapsto> req # pending aw (req_w req))\<rparr>)"
    by (auto simp: handle_def)
next
  assume h: "waiting aw w = Some (rq # rest)
        \<and> changesSince (all aw) (wrevno (watchers aw w)) \<noteq> []
        \<and> respond_step aw w = Inr aw'"
  then have 1: "waiting aw w = Some (rq # rest)"
    and 2: "changesSince (all aw) (wrevno (watchers aw w)) \<noteq> []"
    and 3: "respond_step aw w = Inr aw'" by simp_all
  show "sent aw' =
        sent aw @ [(rq\<lparr>changes := changesSince (all aw) (wrevno (watchers aw w))\<rparr>, True)]"
    by (rule respond_step_head(1) [OF 1 2 3])
  show "wrevno (watchers aw' w) = latestRevno (all aw)"
    by (rule respond_step_head(2) [OF 1 2 3])
  show "waiting aw' w = (if rest = [] then None else Some rest)"
    by (rule respond_step_head(3) [OF 1 2 3])
next
  assume "distinct order \<and> w \<in> set order \<and> respond aw order = Inr aw''"
  then show "waiting aw'' w = waiting aw w
      \<or> (\<exists>rq rest cs. waiting aw w = Some (rq # rest)
            \<and> waiting aw'' w = (if rest = [] then None else Some rest)
            \<and> (rq\<lparr>changes := cs\<rparr>, True) \<in> set (sent aw''))"
    using respond_pass [of aw order aw'' w] by blast
qed

lemma exW2_respond: "respond exW2 [0] = respond_step exW2 0"
  by (simp split: sum.splits)

theorem respond_serves_head_witness:
  "\<not> stopped (watchers exW1 (req_w req2)) \<and> reply req2 \<noteq> None
   \<and> handle exW1 req2 = Inr exW2
   \<and> waiting exW2 0 = Some [req2, req1]
   \<and> changesSince (all exW2) (wrevno (watchers exW2 0)) \<noteq> []
   \<and> respond_step exW2 0 = Inr (projr (respond_step exW2 0))
   \<and> sent (projr (respond_step exW2 0)) =
       [(req2\<lparr>changes := [\<lparr>Removed = False, Entity = ''a''\<rparr>,
                            \<lparr>Removed = False, Entity = ''b''\<rparr>]\<rparr>, True)]
   \<and> wrevno (watchers (projr (respond_step exW2 0)) 0) = 5
   \<and> waiting (projr (respond_step exW2 0)) 0 = Some [req1]
   \<and> distinct [0 :: nat] \<and> respond exW2 [0] = Inr (projr (respond exW2 [0]))
   \<and> waiting (projr (respond exW2 [0])) 0 = Some [req1]"
proof -
  note t = respond_serves_head [where aw = exW2 and w = 0 and rq = req2 and rest = "[req1]"
      and aw' = "projr (respond_step exW2 0)" and order = "[0]"
      and aw'' = "projr (respond exW2 [0])"]
  note t0 = respond_serves_head [where aw = exW1 and req = req2]
  have a: "\<not> stopped (watchers exW1 (req_w req2)) \<and> reply req2 \<noteq> None"
    by (simp add: exW1_def exWatcher_def req2_def)
  have b: "waiting exW2 0 = Some [req2, req1]" by (simp add: exW2_def)
  have c: "changesSince (all exW2) (wrevno (watchers exW2 0)) =
             [\<lparr>Removed = False, Entity = ''a''\<rparr>, \<lparr>Removed = False, Entity = ''b''\<rparr>]"
    by (simp add: exW2_def exWatcher_def ex3_changes0)
  have d: "respond_step exW2 0 = Inr (projr (respond_step exW2 0))"
    by (simp add: exW2_step)
  have e: "respond exW2 [0] = Inr (projr (respond exW2 [0]))"
    by (simp only: exW2_respond) (rule d)
  have l: "latestRevno (all exW2) = 5" by (simp add: exW2_def exWatcher_def ex3_def)
  from t0 a have 1: "handle exW1 req2 = Inr exW2"
    by (simp add: pending_def exW1_def exW2_def exWatcher_def req2_def)
  from t b c d have 2: "sent (projr (respond_step exW2 0)) =
       [(req2\<lparr>changes := [\<lparr>Removed = False, Entity = ''a''\<rparr>,
                            \<lparr>Removed = False, Entity = ''b''\<rparr>]\<rparr>, True)]
     \<and> wrevno (watchers (projr (respond_step exW2 0)) 0) = 5
     \<and> waiting (projr (respond_step exW2 0)) 0 = Some [req1]"
    by (simp add: l) (simp add: exW2_def exWatcher_def)
  have 3: "waiting (projr (respond exW2 [0])) 0 = Some [req1]"
    using 2 by (simp only: exW2_respond)
  from a 1 b c d 2 e 3 show ?thesis by simp
qed

text \<open>
  The oldest request is not the one served. \<open>req1\<close> is queued first and \<open>req2\<close> second;
  the pass replies to \<open>req2\<close>, and \<open>req1\<close>, the oldest, is left waiting.
\<close>

theorem respond_oldest_counterexample:
  "handle exWatcher req1 = Inr exW1 \<and> handle exW1 req2 = Inr exW2
   \<and> respond exW2 [0] = Inr (projr (respond exW2 [0]))
   \<and> map (\<lambda>(rq, ok). (reply rq, ok)) (sent (projr (respond exW2 [0]))) = [(Some 2, True)]
   \<and> waiting (projr (respond exW2 [0])) 0 = Some [req1]
   \<and> req1 \<noteq> req2"
  by (simp add: exW_handle exW2_respond exW2_step) (simp add: req1_def req2_def)

subsection \<open>The cursor of seen and leave\<close>

text \<open>
  When \<open>decRef\<close> unlinks an element \<open>q\<close>, the chain saved before the call, read again
  with \<open>following\<close>, is the chain of the saved element in the list as it now is.
\<close>

lemma dropWhile_removeAll:
  "e \<noteq> q \<Longrightarrow>
     dropWhile (\<lambda>x. x \<noteq> e) (removeAll q l) = removeAll q (dropWhile (\<lambda>x. x \<noteq> e) l)"
  by (induction l) auto

lemma chain_Cons: "e \<in> set l \<Longrightarrow> \<exists>rest. chain l e = e # rest \<and> set rest \<subseteq> set l"
proof -
  assume e: "e \<in> set l"
  then have "dropWhile (\<lambda>x. x \<noteq> e) l \<noteq> []" by (simp add: dropWhile_eq_Nil_conv)
  then obtain x rest where d: "dropWhile (\<lambda>x. x \<noteq> e) l = x # rest"
    by (cases "dropWhile (\<lambda>x. x \<noteq> e) l") auto
  then have "x = e" using hd_dropWhile [of "\<lambda>x. x \<noteq> e" l] by auto
  moreover have "set rest \<subseteq> set l" using set_dropWhileD [of _ "\<lambda>x. x \<noteq> e" l] d by auto
  ultimately show ?thesis using e d by (simp add: chain_def)
qed

lemma following_chain:
  assumes "e \<in> set l"
  shows "following (removeAll q l) (chain l e) = chain (removeAll q l) e"
proof -
  from chain_Cons [OF assms] obtain rest where c: "chain l e = e # rest"
    and sub: "set rest \<subseteq> set l" by blast
  then have d: "dropWhile (\<lambda>x. x \<noteq> e) l = e # rest" using assms by (simp add: chain_def)
  show ?thesis
  proof (cases "e = q")
    case True
    then have "chain (removeAll q l) e = [e]" by (simp add: chain_def)
    with True show ?thesis unfolding c by (simp add: following_def)
  next
    case False
    have "filter (\<lambda>x. x \<in> set (removeAll q l)) rest = removeAll q rest"
      using sub by (auto simp: removeAll_filter_not_eq intro: filter_cong)
    moreover have "chain (removeAll q l) e = e # removeAll q rest"
      using False assms by (simp add: chain_def dropWhile_removeAll d)
    ultimately show ?thesis
      using False assms unfolding c by (simp add: following_def)
  qed
qed

subsection \<open>The invariants hold between loop steps\<close>

text \<open>
  The hypotheses of the theorems above are not special cases: \<open>newAllInfo\<close> satisfies
  them, every method keeps them, and so does every run of \<open>loop\<close> that is too short
  for the \<open>int64\<close> counter to wrap.
\<close>

lemma unlink_indexed:
  assumes "indexed a" and "inj_on (entities a) (dom (entities a))"
    and "entities a eid = Some el"
  shows "indexed (a\<lparr>entities := (entities a)(eid := None), elist := removeAll el (elist a)\<rparr>)"
    and "inj_on ((entities a)(eid := None)) (dom ((entities a)(eid := None)))"
proof -
  show "indexed (a\<lparr>entities := (entities a)(eid := None), elist := removeAll el (elist a)\<rparr>)"
    unfolding indexed_def
  proof (intro allI impI)
    fix k e
    assume h: "entities (a\<lparr>entities := (entities a)(eid := None),
                  elist := removeAll el (elist a)\<rparr>) k = Some e"
    then have k: "k \<noteq> eid" "entities a k = Some e" by (auto split: if_splits)
    then have "e \<in> set (elist a)" using assms(1) by (simp add: indexed_def)
    moreover have "e \<noteq> el"
    proof
      assume "e = el"
      with k assms(3) have "entities a k = entities a eid" by simp
      moreover have "k \<in> dom (entities a)" "eid \<in> dom (entities a)"
        using k assms(3) by auto
      ultimately have "k = eid" using assms(2) by (rule inj_onD [rotated])
      with k show False by simp
    qed
    ultimately show "e \<in> set (elist (a\<lparr>entities := (entities a)(eid := None),
                  elist := removeAll el (elist a)\<rparr>))" by simp
  qed
  show "inj_on ((entities a)(eid := None)) (dom ((entities a)(eid := None)))"
    using assms(2) by (auto simp: inj_on_def dom_def split: if_splits)
qed

lemma consistent_heap:
  assumes "consistent a" and "inv3 (a\<lparr>heap := h\<rparr>)"
  shows "consistent (a\<lparr>heap := h\<rparr>)"
  using assms by (simp add: consistent_def indexed_def)

lemma add_consistent:
  assumes c: "consistent a" and nomax: "latestRevno a \<noteq> max_int64"
    and ad: "add a eid newInfo = Inr a'"
  shows "consistent a'"
proof -
  from c have inv: "inv3 a" and ix: "indexed a"
    and inj: "inj_on (entities a) (dom (entities a))" by (simp_all add: consistent_def)
  have e: "entities a' = (entities a)(eid \<mapsto> nextElem a)" "elist a' = nextElem a # elist a"
    using ad by (auto simp: add_def PushFront_def Let_def split: if_splits)
  have fresh: "entities a k \<noteq> Some (nextElem a)" for k
    using ix inv by (auto simp: indexed_def inv3_def allocated_def)
  have "indexed a'" using ix by (auto simp: indexed_def e)
  moreover have "inj_on (entities a') (dom (entities a'))"
    using inj fresh unfolding e by (auto simp: inj_on_def dom_def split: if_splits)
  moreover have "distinct (elist a')"
    using c inv by (auto simp: e consistent_def inv3_def allocated_def)
  ultimately show ?thesis using add_inv(1) [OF inv nomax ad] by (simp add: consistent_def)
qed

lemma update_consistent:
  assumes c: "consistent a" and nomax: "latestRevno a \<noteq> max_int64"
    and up: "update a eid newInfo = Inr a'"
  shows "consistent a'"
proof (cases "entities a eid")
  case None
  with up have "add a eid newInfo = Inr a'" by (simp add: update_def)
  with c nomax show ?thesis by (rule add_consistent)
next
  case (Some el)
  from c have inv: "inv3 a" by (simp add: consistent_def)
  have "entities a' = entities a" "set (elist a') = set (elist a)"
    using up Some by (auto simp: update_def Let_def MoveToFront_def split: if_splits)
  then have "indexed a'" "inj_on (entities a') (dom (entities a'))"
    using c by (simp_all add: consistent_def indexed_def)
  moreover have "distinct (elist a')"
    using up Some c
    by (auto simp: update_def Let_def MoveToFront_def consistent_def distinct_removeAll
        split: if_splits)
  ultimately show ?thesis using update_inv [OF inv nomax up] by (simp add: consistent_def)
qed

lemma markRemoved_consistent:
  assumes c: "consistent a" and nomax: "latestRevno a \<noteq> max_int64"
  shows "consistent (markRemoved a eid)"
proof -
  from c have inv: "inv3 a" and ix: "indexed a"
    and inj: "inj_on (entities a) (dom (entities a))" by (simp_all add: consistent_def)
  have "indexed (markRemoved a eid) \<and> inj_on (entities (markRemoved a eid)) (dom (entities (markRemoved a eid)))"
  proof (cases "entities a eid")
    case None
    then show ?thesis using ix inj by (simp add: markRemoved_def)
  next
    case (Some el)
    consider "removed (heap a el)" | "\<not> removed (heap a el)" "refCount (heap a el) = 0"
      | "\<not> removed (heap a el)" "refCount (heap a el) \<noteq> 0" by blast
    then show ?thesis
    proof cases
      case 1
      with Some ix inj show ?thesis by (simp add: markRemoved_def)
    next
      case 2
      with Some have m: "markRemoved a eid =
          (a\<lparr>entities := (entities a)(eid := None), elist := removeAll el (elist a)\<rparr>)
            \<lparr>latestRevno := latestRevno a + 1\<rparr>"
        by (simp add: markRemoved_def delete_def Remove_def Let_def)
      show ?thesis using unlink_indexed [OF ix inj Some]
        by (simp add: m indexed_def)
    next
      case 3
      with Some have "entities (markRemoved a eid) = entities a"
        "set (elist (markRemoved a eid)) = set (elist a)"
        by (auto simp: markRemoved_def Let_def MoveToFront_def)
      then show ?thesis using ix inj by (simp add: indexed_def)
    qed
  qed
  moreover have "distinct (elist (markRemoved a eid))"
    using c
    by (auto simp: markRemoved_def delete_def Remove_def MoveToFront_def Let_def
        consistent_def distinct_removeAll split: option.splits)
  ultimately show ?thesis using markRemoved_inv [OF inv nomax] by (simp add: consistent_def)
qed

lemma decRef_consistent:
  assumes c: "consistent a" and dr: "decRef a e eid = Inr a'"
  shows "consistent a'" and "latestRevno a' = latestRevno a"
proof -
  from c have inv: "inv3 a" and ix: "indexed a"
    and inj: "inj_on (entities a) (dom (entities a))" by (simp_all add: consistent_def)
  let ?h = "(heap a)(e := (heap a e)\<lparr>refCount := refCount (heap a e) - 1\<rparr>)"
  from dr consider "a' = a\<lparr>heap := ?h\<rparr>"
    | el where "entities a eid = Some el"
        "a' = (a\<lparr>entities := (entities a)(eid := None), elist := removeAll el (elist a)\<rparr>)
                \<lparr>heap := ?h\<rparr>"
    by (auto simp: decRef_def Let_def Remove_def split: if_splits option.splits)
  then have "indexed a' \<and> inj_on (entities a') (dom (entities a')) \<and> latestRevno a' = latestRevno a"
  proof cases
    case 1
    then show ?thesis using ix inj by (simp add: indexed_def)
  next
    case 2
    show ?thesis using unlink_indexed [OF ix inj 2(1)] by (simp add: 2(2) indexed_def)
  qed
  moreover have "distinct (elist a')"
    using dr c
    by (auto simp: decRef_def Let_def Remove_def consistent_def distinct_removeAll
        split: if_splits option.splits)
  ultimately show "consistent a'" and "latestRevno a' = latestRevno a"
    using decRef_inv [OF inv dr] by (simp_all add: consistent_def)
qed

lemma incRef_consistent:
  assumes "consistent a"
  shows "consistent (a\<lparr>heap := (heap a)(e := (heap a e)\<lparr>refCount := rc\<rparr>)\<rparr>)"
  using assms refCount_upd_inv [of a e rc]
  by (simp add: consistent_def indexed_def)

lemma seen_loop_consistent:
  "consistent a \<Longrightarrow> seen_loop f a r l = Inr a' \<Longrightarrow>
     consistent a' \<and> latestRevno a' = latestRevno a"
proof (induction f a r l rule: seen_loop.induct)
  case (1 f a r)
  then show ?case by simp
next
  case (2 f a r e after)
  show ?case
  proof (cases "revno (heap a e) \<le>s r")
    case True
    with 2 show ?thesis by simp
  next
    case F1: False
    show ?thesis
    proof (cases "r <s creationRevno (heap a e)")
      case T2: True
      show ?thesis
      proof (cases "removed (heap a e)")
        case True
        with F1 T2 2 show ?thesis by simp
      next
        case False
        with F1 T2 "2.prems" "2.IH"(1) incRef_consistent [OF "2.prems"(1)]
        show ?thesis by simp
      qed
    next
      case F2: False
      show ?thesis
      proof (cases "removed (heap a e)")
        case True
        with F1 F2 "2.prems" obtain a1 where
          d: "decRef a e (f (info (heap a e))) = Inr a1"
          and s: "seen_loop f a1 r (following (elist a1) after) = Inr a'"
          by (auto split: sum.splits)
        from decRef_consistent [OF "2.prems"(1) d] "2.IH"(3) [OF F1 F2 True d _ s]
        show ?thesis by simp
      next
        case False
        with F1 F2 2 show ?thesis by simp
      qed
    qed
  qed
qed

lemma leave_loop_consistent:
  "consistent a \<Longrightarrow> leave_loop f a wr l = Inr a' \<Longrightarrow>
     consistent a' \<and> latestRevno a' = latestRevno a"
proof (induction f a wr l rule: leave_loop.induct)
  case (1 f a wr)
  then show ?case by simp
next
  case (2 f a wr e after)
  show ?case
  proof (cases "creationRevno (heap a e) \<le>s wr")
    case T1: True
    show ?thesis
    proof (cases "removed (heap a e) \<and> revno (heap a e) \<le>s wr")
      case True
      with T1 2 show ?thesis by simp
    next
      case False
      with T1 "2.prems" obtain a1 where
        d: "decRef a e (f (info (heap a e))) = Inr a1"
        and s: "leave_loop f a1 wr (following (elist a1) after) = Inr a'"
        by (auto split: sum.splits)
      from decRef_consistent [OF "2.prems"(1) d] "2.IH"(2) [OF T1 False d _ s]
      show ?thesis by simp
    qed
  next
    case False
    with 2 show ?thesis by simp
  qed
qed


lemma newAllInfo_consistent: "consistent (newAllInfo blank0)"
  by (simp add: consistent_def inv3_def allocated_def revno_desc_def revno_bounded_def
      indexed_def entries_def newAllInfo_def)

lemma respond_step_consistent:
  assumes "consistent (all aw)" and "respond_step aw w = Inr aw'"
  shows "consistent (all aw') \<and> latestRevno (all aw') = latestRevno (all aw)"
proof (cases "waiting aw w = None \<or> changesSince (all aw) (wrevno (watchers aw w)) = []")
  case True
  then have "respond_step aw w = Inr aw" by (rule respond_step_idle)
  with assms show ?thesis by simp
next
  case False
  then obtain q where q: "waiting aw w = Some q"
    and cs: "changesSince (all aw) (wrevno (watchers aw w)) \<noteq> []" by auto
  with assms(2) obtain req rest where "q = req # rest"
    by (cases q) (auto simp: respond_step_def Let_def)
  with q cs assms(2) obtain aw3 where 3: "seen aw3 (wrevno (watchers aw w)) = Inr aw'"
    and a: "all aw3 = all aw"
    by (auto simp: respond_step_def Let_def send_def split: if_splits)
  from 3 obtain a' where "seen_loop (entityIdForInfo (backing aw3)) (all aw3)
        (wrevno (watchers aw w)) (elist (all aw3)) = Inr a'" and "all aw' = a'"
    by (auto simp: seen_def split: sum.splits)
  with seen_loop_consistent [of "all aw3"] assms(1) a show ?thesis by auto
qed

lemma respond_consistent:
  "consistent (all aw) \<Longrightarrow> respond aw order = Inr aw' \<Longrightarrow>
     consistent (all aw') \<and> latestRevno (all aw') = latestRevno (all aw)"
proof (induction order arbitrary: aw)
  case Nil
  then show ?case by simp
next
  case (Cons w order)
  then obtain aw1 where 1: "respond_step aw w = Inr aw1" and 2: "respond aw1 order = Inr aw'"
    by (auto split: sum.splits)
  from respond_step_consistent [OF Cons.prems(1) 1] Cons.IH [OF _ 2] show ?case by simp
qed

lemma fold_send_all: "all (fold (\<lambda>rq s. send s rq False) q aw) = all aw"
  by (induction q arbitrary: aw) (simp_all add: send_def)

lemma fold_send_backing: "backing (fold (\<lambda>rq s. send s rq False) q aw) = backing aw"
  by (induction q arbitrary: aw) (simp_all add: send_def)

lemma handle_consistent:
  assumes "consistent (all aw)" and "handle aw req = Inr aw'"
  shows "consistent (all aw') \<and> latestRevno (all aw') = latestRevno (all aw)"
proof (cases "stopped (watchers aw (req_w req)) \<or> reply req \<noteq> None")
  case True
  with assms show ?thesis by (auto simp: handle_def send_def split: if_splits)
next
  case False
  let ?aw1 = "fold (\<lambda>rq s. send s rq False) (pending aw (req_w req)) aw"
  let ?aw3 = "?aw1\<lparr>waiting := (waiting ?aw1)(req_w req := None),
                   watchers := (watchers ?aw1)
                     (req_w req := (watchers ?aw1 (req_w req))\<lparr>stopped := True\<rparr>)\<rparr>"
  from False assms(2) have "leave ?aw3 (req_w req) = Inr aw'"
    by (simp add: handle_def Let_def)
  then obtain a' where "leave_loop (entityIdForInfo (backing ?aw3)) (all ?aw3)
        (wrevno (watchers ?aw3 (req_w req))) (elist (all ?aw3)) = Inr a'" and "all aw' = a'"
    by (auto simp: leave_def split: sum.splits)
  with leave_loop_consistent [of "all ?aw3"] assms(1) show ?thesis
    by (auto simp: fold_send_all)
qed

lemma markRemoved_latest:
  "latestRevno (markRemoved a eid) = latestRevno a
   \<or> latestRevno (markRemoved a eid) = latestRevno a + 1"
  by (auto simp: markRemoved_def delete_def Let_def split: option.splits)

lemma update_latest:
  "update a eid newInfo = Inr a' \<Longrightarrow>
     latestRevno a' = latestRevno a \<or> latestRevno a' = latestRevno a + 1"
  by (auto simp: update_def add_def PushFront_def Let_def split: option.splits if_splits)

lemma changed_consistent:
  assumes "consistent (all aw)" and "latestRevno (all aw) \<noteq> max_int64"
    and "changed aw eid = Inr (aw', e)"
  shows "consistent (all aw')"
    and "latestRevno (all aw') = latestRevno (all aw)
         \<or> latestRevno (all aw') = latestRevno (all aw) + 1"
proof -
  obtain i fe where f: "fetch (backing aw) eid = (i, fe)" by (cases "fetch (backing aw) eid")
  consider "fe = Some ErrNotFound" | x where "fe = Some x" "x \<noteq> ErrNotFound" | "fe = None"
    by (cases fe) auto
  then have "consistent (all aw')
      \<and> (latestRevno (all aw') = latestRevno (all aw)
         \<or> latestRevno (all aw') = latestRevno (all aw) + 1)"
  proof cases
    case 1
    with f assms(3) have "all aw' = markRemoved (all aw) eid" by (auto simp: changed_def)
    then show ?thesis
      using markRemoved_consistent [OF assms(1,2), of eid] markRemoved_latest [of "all aw" eid]
      by simp
  next
    case 2
    with f assms(3) have "aw' = aw" by (auto simp: changed_def)
    with assms(1) show ?thesis by simp
  next
    case 3
    with f assms(3) obtain a' where u: "update (all aw) eid i = Inr a'" and "all aw' = a'"
      by (auto simp: changed_def split: sum.splits)
    then show ?thesis
      using update_consistent [OF assms(1,2) u] update_latest [OF u] by simp
  qed
  then show "consistent (all aw')"
    and "latestRevno (all aw') = latestRevno (all aw)
         \<or> latestRevno (all aw') = latestRevno (all aw) + 1" by simp_all
qed

lemma loop_step_consistent:
  assumes c: "consistent (all aw)" and nomax: "latestRevno (all aw) \<noteq> max_int64"
    and st: "loop_step aw ev order = Inr (aw', e)"
  shows "consistent (all aw')"
    and "latestRevno (all aw') = latestRevno (all aw)
         \<or> latestRevno (all aw') = latestRevno (all aw) + 1"
proof -
  have "consistent (all aw')
      \<and> (latestRevno (all aw') = latestRevno (all aw)
         \<or> latestRevno (all aw') = latestRevno (all aw) + 1)"
  proof (cases ev)
    case Dying
    with st c show ?thesis by (simp add: loop_step_def)
  next
    case (Change eid)
    with st obtain aw1 e1 where ch: "changed aw eid = Inr (aw1, e1)"
      by (auto simp: loop_step_def split: sum.splits)
    note c1 = changed_consistent [OF c nomax ch]
    show ?thesis
    proof (cases e1)
      case None
      with st Change ch obtain aw2 where r: "respond aw1 order = Inr aw2" and "aw' = aw2"
        by (auto simp: loop_step_def split: sum.splits)
      with respond_consistent [OF c1(1) r] c1(2) show ?thesis by auto
    next
      case (Some x)
      with st Change ch have "aw' = aw1" by (simp add: loop_step_def)
      with c1 show ?thesis by simp
    qed
  next
    case (Request req)
    with st obtain aw1 aw2 where h: "handle aw req = Inr aw1"
      and r: "respond aw1 order = Inr aw2" and "aw' = aw2"
      by (auto simp: loop_step_def split: sum.splits)
    with handle_consistent [OF c h] respond_consistent [OF _ r] show ?thesis by auto
  qed
  then show "consistent (all aw')"
    and "latestRevno (all aw') = latestRevno (all aw)
         \<or> latestRevno (all aw') = latestRevno (all aw) + 1" by simp_all
qed

lemma loop_run_consistent:
  "consistent (all aw) \<Longrightarrow> sint (latestRevno (all aw)) + int (length evs) < 2 ^ 63 \<Longrightarrow>
   loop_run aw evs = Inr (aw', e) \<Longrightarrow> consistent (all aw')"
proof (induction evs arbitrary: aw)
  case Nil
  then show ?case by simp
next
  case (Cons x evs)
  obtain f ev order where x: "x = (f, ev, order)" by (cases x)
  let ?aw = "aw\<lparr>backing := (backing aw)\<lparr>fetch := f\<rparr>\<rparr>"
  have c: "consistent (all ?aw)" using Cons.prems(1) by simp
  from Cons.prems(2) have lt: "sint (latestRevno (all aw)) < 2 ^ 63 - 1" by simp
  then have nomax: "latestRevno (all ?aw) \<noteq> max_int64" by (auto simp: sint_max_int64)
  from Cons.prems(3) x obtain aw1 e1 where st: "loop_step ?aw ev order = Inr (aw1, e1)"
    by (auto split: sum.splits)
  note s = loop_step_consistent [OF c nomax st]
  show ?case
  proof (cases e1)
    case (Some y)
    with Cons.prems(3) x st have "aw' = aw1" by simp
    with s show ?thesis by simp
  next
    case None
    with Cons.prems(3) x st have r: "loop_run aw1 evs = Inr (aw', e)" by simp
    from s(2) nomax have "sint (latestRevno (all aw1)) \<le> sint (latestRevno (all aw)) + 1"
      by (auto simp: sint_succ)
    with Cons.prems(2) have "sint (latestRevno (all aw1)) + int (length evs) < 2 ^ 63" by simp
    from Cons.IH [OF s(1) this r] show ?thesis .
  qed
qed

lemma loop_run_from_new:
  assumes "all aw = newAllInfo blank0" and "int (length evs) < 2 ^ 63"
    and "loop_run aw evs = Inr (aw', e)"
  shows "revno_desc (entries (all aw')) \<and> revno_bounded (all aw')
       \<and> allocated (all aw') \<and> indexed (all aw') \<and> distinct (elist (all aw'))"
proof -
  have "consistent (all aw)" by (simp add: assms(1) newAllInfo_consistent)
  moreover have "sint (latestRevno (all aw)) + int (length evs) < 2 ^ 63"
    using assms(2) by (simp add: assms(1) newAllInfo_def)
  ultimately have "consistent (all aw')" using assms(3) by (rule loop_run_consistent)
  then show ?thesis by (simp add: consistent_def inv3_def)
qed

text \<open>
  A run in which the store changes under the watcher: \<open>idA\<close> appears, changes and is
  gone, and \<open>fetch\<close> answers accordingly in each turn.
\<close>

lemma loop_run_example:
  "\<exists>aw'. loop_run exNew
      [(\<lambda>_. (''a'', None), Change idA, []),
       (\<lambda>_. (''a2'', None), Change idA, [])] = Inr (aw', None)
     \<and> entries (all aw') =
         [\<lparr>revno = 2, creationRevno = 1, removed = False, refCount = 0, info = ''a2''\<rparr>]"
  "\<exists>aw'. loop_run exNew
      [(\<lambda>_. (''a'', None), Change idA, []),
       (\<lambda>_. (''a2'', None), Change idA, []),
       (\<lambda>_. ('''', Some ErrNotFound), Change idA, [])] = Inr (aw', None)
     \<and> entries (all aw') = [] \<and> entities (all aw') idA = None
     \<and> latestRevno (all aw') = 3"
  by (simp_all add: exNew_def exWatcher_def exBacking_def newAllInfo_def loop_step_def
      changed_def ops entries_def ids)

end
